theory Spec2Isabelle
  imports Complex_Main "HOL-Library.Word" "HOL-Library.Sublist"
begin

chapter \<open>Definitions\<close>

section \<open>Data model (types/index.ts)\<close>

type_synonym u8 = "8 word"

text \<open>
  JavaScript numbers that hold sizes, dimensions, counters and frame numbers are modelled
  as \<open>int\<close> (or \<open>nat\<close> for lengths), presentation timestamps (seconds) as \<open>real\<close>. A
  \<open>Uint8Array\<close> or \<open>Buffer\<close> value is a list of bytes.
\<close>

record RawFrame =
  data :: "u8 list"
  width :: int
  height :: int
  stride :: int
  pts :: real
  frameNumber :: int

record SceneInfo =
  frameNumber :: int
  timestamp :: real
  timecode :: string

text \<open>\<open>resolution\<close> is the pair (width, height).\<close>

record VideoMetadata =
  totalFrames :: int
  duration :: real
  fps :: real
  resolution :: "int \<times> int"

record DetectionStats =
  processingTime :: real
  framesPerSecond :: real

record DetectionResult =
  scenes :: "SceneInfo list"
  metadata :: VideoMetadata
  stats :: DetectionStats

datatype SensitivityLevel = Low | Medium | High | Custom

datatype SearchRange = Auto | Small | MediumRange | Large

record CustomThresholds =
  intraThresh :: int
  intraThresh2 :: int

record TemporalSmoothing =
  enabled :: bool
  windowSize :: int
  minConsecutive :: int

text \<open>
  \<open>DetectionOptions\<close> is what a caller passes (every field optional);
  \<open>RequiredOptions\<close> is \<open>Required<DetectionOptions>\<close>, what the detector stores. The
  callbacks (\<open>onProgress\<close>, \<open>onScene\<close>) and the fields that only configure the decoder
  or the output format have no influence on the values computed here and are left out.
\<close>

record DetectionOptions =
  sensitivity :: "SensitivityLevel option"
  customThresholds :: "CustomThresholds option"
  searchRange :: "SearchRange option"
  temporalSmoothing :: "TemporalSmoothing option"

record RequiredOptions =
  sensitivity :: SensitivityLevel
  customThresholds :: CustomThresholds
  searchRange :: SearchRange
  temporalSmoothing :: TemporalSmoothing

record DetectionState =
  intraCount :: int
  fcode :: int
  prevFrame :: "RawFrame option"
  curFrame :: "RawFrame option"

text \<open>The C struct \<open>MBParam\<close> that \<open>MEanalysis_js\<close> fills in (all fields \<open>uint32_t\<close>).\<close>

record MBParam =
  width :: nat
  height :: nat
  mb_width :: nat
  mb_height :: nat
  edged_width :: nat
  edged_height :: nat
  edge_size :: nat

text \<open>Every \<open>throw new Error(...)\<close> of the modelled code is one constructor.\<close>

datatype error =
    FrameDataEmpty
  | FrameDataSizeMismatch int nat
  | InvalidFrameDimensions int int
  | FrameDimensionsTooLarge int int
  | FrameDimensionsMustMatch
  | WasmNotInitialized
  | WasmInitFailed
  | DecoderFailure
  | RingBufferOverflow
  | RingBufferUnderflow

section \<open>Frame utilities (utils/frame-processor.ts)\<close>

definition validateFrameDimensions :: "int \<Rightarrow> int \<Rightarrow> error + unit" where
  "validateFrameDimensions w h =
     (if w \<le> 0 \<or> h \<le> 0 then Inl (InvalidFrameDimensions w h)
      else if w > 8192 \<or> h > 8192 then Inl (FrameDimensionsTooLarge w h)
      else Inr ())"

definition calculateFcode :: "SearchRange \<Rightarrow> int \<Rightarrow> int \<Rightarrow> int" where
  "calculateFcode sr w h =
     (case sr of
        Small \<Rightarrow> 2
      | MediumRange \<Rightarrow> 4
      | Large \<Rightarrow> 6
      | Auto \<Rightarrow>
          (let pixels = w * h in
           if pixels \<le> 720 * 480 then 3
           else if pixels \<le> 1920 * 1080 then 4
           else 5))"

definition calculateThresholds :: "SensitivityLevel \<Rightarrow> CustomThresholds" where
  "calculateThresholds level =
     (case level of
        Low \<Rightarrow> \<lparr>intraThresh = 3000, intraThresh2 = 150\<rparr>
      | Medium \<Rightarrow> \<lparr>intraThresh = 2000, intraThresh2 = 90\<rparr>
      | High \<Rightarrow> \<lparr>intraThresh = 1000, intraThresh2 = 50\<rparr>
      | Custom \<Rightarrow> \<lparr>intraThresh = 2000, intraThresh2 = 90\<rparr>)"

definition validateFrame :: "RawFrame \<Rightarrow> error + unit" where
  "validateFrame frame =
     (if length (data frame) = 0 then Inl FrameDataEmpty
      else
        let expectedSize = RawFrame.width frame * RawFrame.height frame in
        if int (length (data frame)) < expectedSize
        then Inl (FrameDataSizeMismatch expectedSize (length (data frame)))
        else validateFrameDimensions (RawFrame.width frame) (RawFrame.height frame))"

section \<open>The WebAssembly side (wasm/wasm-interface.c)\<close>

text \<open>
  \<open>uint32_t\<close> values are natural numbers below \<open>2 ^ 32\<close>; \<open>u32\<close> is the wrap-around
  of an arithmetic result. Addition and multiplication commute with the wrap-around, so
  one \<open>u32\<close> around a sum of products is the value the C expression has; division is
  applied to the wrapped operand, and \<open>sub32\<close> is the wrapping subtraction.
\<close>

definition u32 :: "nat \<Rightarrow> nat" where
  "u32 n = n mod 2 ^ 32"

definition sub32 :: "nat \<Rightarrow> nat \<Rightarrow> nat" where
  "sub32 a b = (a + (2 ^ 32 - b mod 2 ^ 32)) mod 2 ^ 32"

text \<open>
  A buffer in linear memory is the function from the offset (relative to the buffer's
  base pointer) to the byte stored there. The source and the destination of \<open>pad_frame\<close>
  are separate allocations of the bridge, so they are separate functions. \<open>memcpy\<close>
  reads its source as it is before the call; the regions the code copies between never
  overlap.
\<close>

type_synonym mem = "nat \<Rightarrow> u8"

definition memset :: "mem \<Rightarrow> nat \<Rightarrow> u8 \<Rightarrow> nat \<Rightarrow> mem" where
  "memset m p v n = (\<lambda>i. if p \<le> i \<and> i < p + n then v else m i)"

definition memcpy :: "mem \<Rightarrow> nat \<Rightarrow> mem \<Rightarrow> nat \<Rightarrow> nat \<Rightarrow> mem" where
  "memcpy d p s q n = (\<lambda>i. if p \<le> i \<and> i < p + n then s (q + (i - p)) else d i)"

definition calculate_padded_size :: "nat \<Rightarrow> nat \<Rightarrow> nat" where
  "calculate_padded_size w h =
     (let mbw = u32 (w + 15) div 16;
          mbh = u32 (h + 15) div 16;
          ew = u32 (16 * mbw + 2 * 64);
          eh = u32 (16 * mbh + 2 * 64)
      in u32 (ew * eh))"

text \<open>The five loops of \<open>pad_frame\<close>, in the order of the source.\<close>

definition copy_rows :: "mem \<Rightarrow> nat \<Rightarrow> nat \<Rightarrow> nat \<Rightarrow> mem \<Rightarrow> mem" where
  "copy_rows src w h ew dst =
     fold (\<lambda>y d. memcpy d (u32 ((y + 64) * ew) + 64) src (u32 (y * w)) w)
       [0..<h] dst"

definition pad_right :: "mem \<Rightarrow> nat \<Rightarrow> nat \<Rightarrow> nat \<Rightarrow> nat \<Rightarrow> mem \<Rightarrow> mem" where
  "pad_right src w h padded_width ew dst =
     (if w < padded_width then
        fold (\<lambda>y d.
                let edge_value = src (sub32 (y * w + w) 1) in
                fold (\<lambda>x d'. d'(u32 ((y + 64) * ew + 64 + x) := edge_value))
                  [w..<padded_width] d)
          [0..<h] dst
      else dst)"

definition pad_bottom :: "nat \<Rightarrow> nat \<Rightarrow> nat \<Rightarrow> nat \<Rightarrow> mem \<Rightarrow> mem" where
  "pad_bottom h padded_width padded_height ew dst =
     (if h < padded_height then
        fold (\<lambda>y d. memcpy d (u32 ((y + 64) * ew) + 64)
                       d (u32 ((sub32 h 1 + 64) * ew) + 64) padded_width)
          [h..<padded_height] dst
      else dst)"

definition pad_top_bottom :: "nat \<Rightarrow> nat \<Rightarrow> mem \<Rightarrow> mem" where
  "pad_top_bottom ew eh dst =
     fold (\<lambda>i d.
             let d1 = memcpy d (u32 (i * ew)) d (u32 (64 * ew)) ew
             in memcpy d1 (u32 (sub32 (sub32 eh 1) i * ew))
                  d1 (u32 (sub32 (sub32 eh 1) 64 * ew)) ew)
       [0..<64] dst"

definition pad_left_right :: "nat \<Rightarrow> nat \<Rightarrow> nat \<Rightarrow> mem \<Rightarrow> mem" where
  "pad_left_right padded_width ew eh dst =
     fold (\<lambda>y d.
             let left_val = d (u32 (y * ew + 64));
                 right_val = d (sub32 (y * ew + 64 + padded_width) 1);
                 d1 = fold (\<lambda>i d'. d'(u32 (y * ew + i) := left_val)) [0..<64] d
             in fold (\<lambda>i d'. d'(u32 (y * ew + 64 + padded_width + i) := right_val))
                  [0..<64] d1)
       [0..<eh] dst"

definition pad_frame :: "mem \<Rightarrow> mem \<Rightarrow> nat \<Rightarrow> nat \<Rightarrow> mem" where
  "pad_frame src dst w h =
     (let mbw = u32 (w + 15) div 16;
          mbh = u32 (h + 15) div 16;
          ew = u32 (16 * mbw + 2 * 64);
          eh = u32 (16 * mbh + 2 * 64);
          d0 = memset dst 0 0 (u32 (ew * eh));
          d1 = copy_rows src w h ew d0;
          padded_width = u32 (mbw * 16);
          d2 = pad_right src w h padded_width ew d1;
          padded_height = u32 (mbh * 16);
          d3 = pad_bottom h padded_width padded_height ew d2;
          d4 = pad_top_bottom ew eh d3
      in pad_left_right padded_width ew eh d4)"

text \<open>
  \<open>MEanalysis\<close> itself (detection.c) is not part of the sources at hand. It is a parameter:
  a function of the two padded planes it is given (their \<open>edged_width * edged_height\<close>
  bytes), the macroblock parameters, \<open>intraCount\<close> and \<open>fcode\<close>. The wrapper
  \<open>MEanalysis_js\<close> builds the parameters; its macroblock array is scratch space.
\<close>

type_synonym analysis = "u8 list \<Rightarrow> u8 list \<Rightarrow> MBParam \<Rightarrow> int \<Rightarrow> int \<Rightarrow> int"

definition MEanalysis_js ::
  "analysis \<Rightarrow> u8 list \<Rightarrow> u8 list \<Rightarrow> nat \<Rightarrow> nat \<Rightarrow> int \<Rightarrow> int \<Rightarrow> int" where
  "MEanalysis_js MEanalysis pRef pCur w h count fc =
     (let mbw = u32 (w + 15) div 16;
          mbh = u32 (h + 15) div 16;
          param = \<lparr>MBParam.width = w, MBParam.height = h, mb_width = mbw, mb_height = mbh,
                   edged_width = u32 (16 * mbw + 2 * 64),
                   edged_height = u32 (16 * mbh + 2 * 64),
                   edge_size = 64\<rparr>
      in MEanalysis pRef pCur param count fc)"

section \<open>The bridge (detection/wasm-bridge.ts)\<close>

text \<open>
  The four buffer pointers are represented by what the code asks of them: whether the raw
  pair and the padded pair have been allocated (\<open>_malloc\<close> is taken to succeed). A frame's
  dimension reaches a \<open>uint32_t\<close> parameter through JavaScript's conversion to 32 bits.
\<close>

record WasmBridge =
  module :: "analysis option"
  initialized :: bool
  rawAllocated :: bool
  paddedAllocated :: bool
  allocatedFrameSize :: int
  allocatedPaddedSize :: int

definition WasmBridge_new :: WasmBridge where
  "WasmBridge_new =
     \<lparr>module = None, initialized = False, rawAllocated = False, paddedAllocated = False,
      allocatedFrameSize = 0, allocatedPaddedSize = 0\<rparr>"

definition to_uint32 :: "int \<Rightarrow> nat" where
  "to_uint32 n = nat (n mod 2 ^ 32)"

text \<open>\<open>loaded\<close> is the outcome of loading the module file: \<open>None\<close> when that fails.\<close>

definition init :: "analysis option \<Rightarrow> WasmBridge \<Rightarrow> error + WasmBridge" where
  "init loaded br =
     (if initialized br then Inr br
      else case loaded of
             None \<Rightarrow> Inl WasmInitFailed
           | Some m \<Rightarrow> Inr (br\<lparr>module := Some m, initialized := True\<rparr>))"

definition ensureInitialized :: "WasmBridge \<Rightarrow> error + unit" where
  "ensureInitialized br =
     (if \<not> initialized br \<or> module br = None then Inl WasmNotInitialized else Inr ())"

definition allocateBuffers :: "WasmBridge \<Rightarrow> int \<Rightarrow> int \<Rightarrow> error + WasmBridge" where
  "allocateBuffers br w h =
     (case ensureInitialized br of
        Inl e \<Rightarrow> Inl e
      | Inr _ \<Rightarrow>
          let frameSize = w * h;
              paddedSize = int (calculate_padded_size (to_uint32 w) (to_uint32 h));
              br1 = (if frameSize \<noteq> allocatedFrameSize br
                     then br\<lparr>rawAllocated := True, allocatedFrameSize := frameSize\<rparr>
                     else br);
              br2 = (if paddedSize \<noteq> allocatedPaddedSize br1
                     then br1\<lparr>paddedAllocated := True, allocatedPaddedSize := paddedSize\<rparr>
                     else br1)
          in Inr br2)"

text \<open>
  What the four buffers hold before a call (left over from the previous call, or whatever
  \<open>_malloc\<close> returned) is an input of the model: \<open>stale\<close>.
\<close>

record stale =
  prevRaw :: mem
  curRaw :: mem
  prevPadded :: mem
  curPadded :: mem

text \<open>\<open>HEAPU8.set(data, ptr)\<close>: the buffer at \<open>ptr\<close> afterwards.\<close>

definition heap_set :: "u8 list \<Rightarrow> mem \<Rightarrow> mem" where
  "heap_set bytes m = (\<lambda>i. if i < length bytes then bytes ! i else m i)"

definition plane :: "mem \<Rightarrow> nat \<Rightarrow> u8 list" where
  "plane m n = map m [0..<n]"

definition detectSceneChange ::
  "stale \<Rightarrow> WasmBridge \<Rightarrow> RawFrame \<Rightarrow> RawFrame \<Rightarrow> int \<Rightarrow> int \<Rightarrow> error + bool \<times> WasmBridge" where
  "detectSceneChange s br prevF curF count fc =
     (case ensureInitialized br of
        Inl e \<Rightarrow> Inl e
      | Inr _ \<Rightarrow>
          if RawFrame.width prevF \<noteq> RawFrame.width curF
             \<or> RawFrame.height prevF \<noteq> RawFrame.height curF
          then Inl FrameDimensionsMustMatch
          else
            case (if \<not> rawAllocated br \<or> allocatedFrameSize br \<noteq> int (length (data prevF))
                  then allocateBuffers br (RawFrame.width prevF) (RawFrame.height prevF)
                  else Inr br) of
              Inl e \<Rightarrow> Inl e
            | Inr br' \<Rightarrow>
                let pw = to_uint32 (RawFrame.width prevF);
                    ph = to_uint32 (RawFrame.height prevF);
                    cw = to_uint32 (RawFrame.width curF);
                    ch = to_uint32 (RawFrame.height curF);
                    prevP = pad_frame (heap_set (data prevF) (prevRaw s)) (prevPadded s) pw ph;
                    curP = pad_frame (heap_set (data curF) (curRaw s)) (curPadded s) cw ch;
                    n = calculate_padded_size pw ph;
                    r = MEanalysis_js (the (module br')) (plane prevP n) (plane curP n)
                          pw ph count fc
                in Inr (r = 1, br'))"

section \<open>The detector (detection/detector.ts)\<close>

record SceneDetector =
  options :: RequiredOptions
  wasmBridge :: WasmBridge
  state :: DetectionState

definition SceneDetector_new :: "DetectionOptions \<Rightarrow> SceneDetector" where
  "SceneDetector_new opts =
     \<lparr>options =
        \<lparr>sensitivity =
           (case DetectionOptions.sensitivity opts of None \<Rightarrow> Medium | Some s \<Rightarrow> s),
         customThresholds =
           (case DetectionOptions.customThresholds opts of
              None \<Rightarrow> \<lparr>intraThresh = 2000, intraThresh2 = 90\<rparr> | Some c \<Rightarrow> c),
         searchRange =
           (case DetectionOptions.searchRange opts of None \<Rightarrow> MediumRange | Some r \<Rightarrow> r),
         temporalSmoothing =
           (case DetectionOptions.temporalSmoothing opts of
              None \<Rightarrow> \<lparr>enabled = False, windowSize = 5, minConsecutive = 2\<rparr> | Some t \<Rightarrow> t)\<rparr>,
      wasmBridge = WasmBridge_new,
      state = \<lparr>intraCount = 1, fcode = 4, prevFrame = None, curFrame = None\<rparr>\<rparr>"

text \<open>
  The variables the frame callback of \<open>detect\<close> works on: the scene list, the frame
  counter and the detector object. \<open>analysed\<close> is a ghost field: the (previous, current)
  pair of every verdict evaluated so far, in order.
\<close>

record FrameLoop =
  scenes :: "SceneInfo list"
  processedFrames :: nat
  detector :: SceneDetector
  analysed :: "(RawFrame \<times> RawFrame) list"

text \<open>
  \<open>formatTimecode\<close> is floating-point formatting and is a parameter. \<open>buffers k\<close> is the
  content of the bridge's buffers before the call made for the \<open>k\<close>-th delivered frame.
\<close>

definition onFrame ::
  "(real \<Rightarrow> string) \<Rightarrow> (nat \<Rightarrow> stale) \<Rightarrow> FrameLoop \<Rightarrow> RawFrame \<Rightarrow> error + FrameLoop" where
  "onFrame formatTimecode buffers L frame =
     (case validateFrame frame of
        Inl e \<Rightarrow> Inl e
      | Inr _ \<Rightarrow>
          let this = detector L;
              st = (state this)\<lparr>curFrame := Some frame\<rparr>
          in case prevFrame st of
               None \<Rightarrow>
                 Inr (L\<lparr>processedFrames := processedFrames L + 1,
                        detector := this\<lparr>state := st\<lparr>prevFrame := curFrame st\<rparr>\<rparr>\<rparr>)
             | Some p \<Rightarrow>
                 (case detectSceneChange (buffers (processedFrames L)) (wasmBridge this)
                         p frame (intraCount st) (fcode st) of
                    Inl e \<Rightarrow> Inl e
                  | Inr (isSceneChange, br) \<Rightarrow>
                      let scene = \<lparr>frameNumber = RawFrame.frameNumber frame,
                                   timestamp = pts frame,
                                   timecode = formatTimecode (pts frame)\<rparr>;
                          found = (if isSceneChange then FrameLoop.scenes L @ [scene]
                                   else FrameLoop.scenes L);
                          st' = (if isSceneChange then st\<lparr>intraCount := 1\<rparr>
                                 else st\<lparr>intraCount := intraCount st + 1\<rparr>)
                      in Inr (L\<lparr>FrameLoop.scenes := found,
                                processedFrames := processedFrames L + 1,
                                detector := this\<lparr>wasmBridge := br,
                                                 state := st'\<lparr>prevFrame := curFrame st'\<rparr>\<rparr>,
                                analysed := analysed L @ [(p, frame)]\<rparr>)))"

text \<open>
  The decoder (decoder/ffmpeg-decoder.ts) is represented by what it hands to the detector:
  the outcome of \<open>getMetadata\<close>, the frames \<open>extractFrames\<close> delivers to the callback in
  order, and whether the stream then ends normally or with an error. An error thrown by
  the callback stops the delivery and becomes the outcome.
\<close>

record Decoder =
  probe :: "error + VideoMetadata"
  frames :: "RawFrame list"
  failure :: "error option"

fun deliver :: "(FrameLoop \<Rightarrow> RawFrame \<Rightarrow> error + FrameLoop) \<Rightarrow> FrameLoop \<Rightarrow> RawFrame list
                  \<Rightarrow> error + FrameLoop" where
  "deliver f L [] = Inr L"
| "deliver f L (x # xs) = (case f L x of Inl e \<Rightarrow> Inl e | Inr L' \<Rightarrow> deliver f L' xs)"

definition extractFrames ::
  "Decoder \<Rightarrow> (FrameLoop \<Rightarrow> RawFrame \<Rightarrow> error + FrameLoop) \<Rightarrow> FrameLoop \<Rightarrow> error + FrameLoop" where
  "extractFrames decoder f L =
     (case deliver f L (frames decoder) of
        Inl e \<Rightarrow> Inl e
      | Inr L' \<Rightarrow> (case failure decoder of Some e \<Rightarrow> Inl e | None \<Rightarrow> Inr L'))"

text \<open>
  \<open>detect\<close> on the detector object \<open>this\<close>. \<open>clock\<close> is the pair of \<open>Date.now()\<close> readings
  (start, end). The result comes with the final values of the callback's variables.
\<close>

definition detect ::
  "analysis option \<Rightarrow> (real \<Rightarrow> string) \<Rightarrow> (nat \<Rightarrow> stale) \<Rightarrow> int \<times> int \<Rightarrow> Decoder
     \<Rightarrow> SceneDetector \<Rightarrow> error + DetectionResult \<times> FrameLoop" where
  "detect loaded formatTimecode buffers clock decoder this =
     (case init loaded (wasmBridge this) of
        Inl e \<Rightarrow> Inl e
      | Inr br0 \<Rightarrow>
          (case probe decoder of
             Inl e \<Rightarrow> Inl e
           | Inr md \<Rightarrow>
               let st0 = (state this)\<lparr>fcode := calculateFcode (searchRange (options this))
                                                   (fst (resolution md)) (snd (resolution md))\<rparr>
               in case allocateBuffers br0 (fst (resolution md)) (snd (resolution md)) of
                    Inl e \<Rightarrow> Inl e
                  | Inr br1 \<Rightarrow>
                      let L0 = \<lparr>FrameLoop.scenes =
                                   [\<lparr>frameNumber = 0, timestamp = 0,
                                     timecode = ''00:00:00.000''\<rparr>],
                                processedFrames = 0,
                                detector = this\<lparr>wasmBridge := br1, state := st0\<rparr>,
                                analysed = []\<rparr>
                      in case extractFrames decoder (onFrame formatTimecode buffers) L0 of
                           Inl e \<Rightarrow> Inl e
                         | Inr L \<Rightarrow>
                             let seconds = real_of_int (snd clock - fst clock) / 1000
                             in Inr (\<lparr>DetectionResult.scenes = FrameLoop.scenes L, metadata = md,
                                      stats = \<lparr>processingTime = seconds,
                                                framesPerSecond =
                                                  real (processedFrames L) / seconds\<rparr>\<rparr>,
                                     L)))"

text \<open>The simple API (index.ts): a new detector for every call.\<close>

definition detectSceneChanges ::
  "analysis option \<Rightarrow> (real \<Rightarrow> string) \<Rightarrow> (nat \<Rightarrow> stale) \<Rightarrow> int \<times> int \<Rightarrow> Decoder
     \<Rightarrow> DetectionOptions \<Rightarrow> error + DetectionResult" where
  "detectSceneChanges loaded formatTimecode buffers clock decoder opts =
     map_sum id fst (detect loaded formatTimecode buffers clock decoder (SceneDetector_new opts))"

section \<open>The decoder's ring buffer (decoder/ffmpeg-decoder.ts)\<close>

record RingBuffer =
  buffer :: "u8 list"
  writePos :: nat
  readPos :: nat
  availableBytes :: nat
  capacity :: nat

definition allocUnsafe :: "nat \<Rightarrow> u8 list \<Rightarrow> u8 list" where
  "allocUnsafe sz uninit = take sz (uninit @ replicate sz 0)"

definition RingBuffer_new :: "nat \<Rightarrow> u8 list \<Rightarrow> RingBuffer" where
  "RingBuffer_new sz uninit =
     \<lparr>buffer = allocUnsafe sz uninit, writePos = 0, readPos = 0, availableBytes = 0,
      capacity = sz\<rparr>"

definition buf_copy :: "u8 list \<Rightarrow> u8 list \<Rightarrow> nat \<Rightarrow> nat \<Rightarrow> nat \<Rightarrow> u8 list" where
  "buf_copy source target targetStart sourceStart sourceEnd =
     (let n = min (min sourceEnd (length source) - sourceStart) (length target - targetStart)
      in take targetStart target @ take n (drop sourceStart source)
           @ drop (targetStart + n) target)"

definition RingBuffer_write :: "RingBuffer \<Rightarrow> u8 list \<Rightarrow> (error + unit) \<times> RingBuffer" where
  "RingBuffer_write rb chunk =
     (let chunkSize = length chunk in
      if int chunkSize > int (capacity rb) - int (availableBytes rb)
      then (Inl RingBufferOverflow, rb)
      else
        let endSpace = capacity rb - writePos rb;
            rb1 = (if chunkSize \<le> endSpace
                   then rb\<lparr>buffer := buf_copy chunk (buffer rb) (writePos rb) 0 (length chunk),
                           writePos := writePos rb + chunkSize\<rparr>
                   else rb\<lparr>buffer := buf_copy chunk
                                       (buf_copy chunk (buffer rb) (writePos rb) 0 endSpace)
                                       0 endSpace chunkSize,
                           writePos := chunkSize - endSpace\<rparr>);
            rb2 = (if writePos rb1 \<ge> capacity rb1 then rb1\<lparr>writePos := 0\<rparr> else rb1)
        in (Inr (), rb2\<lparr>availableBytes := availableBytes rb2 + chunkSize\<rparr>))"

definition RingBuffer_read :: "RingBuffer \<Rightarrow> nat \<Rightarrow> u8 list \<Rightarrow> (error + u8 list) \<times> RingBuffer" where
  "RingBuffer_read rb sz uninit =
     (if sz > availableBytes rb then (Inl RingBufferUnderflow, rb)
      else
        let result = allocUnsafe sz uninit;
            endSpace = capacity rb - readPos rb;
            (result', rb1) =
              (if sz \<le> endSpace
               then (buf_copy (buffer rb) result 0 (readPos rb) (readPos rb + sz),
                     rb\<lparr>readPos := readPos rb + sz\<rparr>)
               else (buf_copy (buffer rb)
                       (buf_copy (buffer rb) result 0 (readPos rb) (capacity rb))
                       endSpace 0 (sz - endSpace),
                     rb\<lparr>readPos := sz - endSpace\<rparr>));
            rb2 = (if readPos rb1 \<ge> capacity rb1 then rb1\<lparr>readPos := 0\<rparr> else rb1)
        in (Inr result', rb2\<lparr>availableBytes := availableBytes rb2 - sz\<rparr>))"

datatype ring_op = Write "u8 list" | Read nat "u8 list"

fun run_ops :: "RingBuffer \<Rightarrow> ring_op list \<Rightarrow> error + u8 list list \<times> RingBuffer" where
  "run_ops rb [] = Inr ([], rb)"
| "run_ops rb (Write chunk # ops) =
     (case RingBuffer_write rb chunk of
        (Inl e, _) \<Rightarrow> Inl e
      | (Inr _, rb') \<Rightarrow> run_ops rb' ops)"
| "run_ops rb (Read sz uninit # ops) =
     (case RingBuffer_read rb sz uninit of
        (Inl e, _) \<Rightarrow> Inl e
      | (Inr out, rb') \<Rightarrow>
          (case run_ops rb' ops of Inl e \<Rightarrow> Inl e | Inr (outs, rb'') \<Rightarrow> Inr (out # outs, rb'')))"

fun written :: "ring_op list \<Rightarrow> u8 list" where
  "written [] = []"
| "written (Write chunk # ops) = chunk @ written ops"
| "written (Read sz uninit # ops) = written ops"

fun fits :: "nat \<Rightarrow> nat \<Rightarrow> ring_op list \<Rightarrow> bool" where
  "fits cap avail [] = True"
| "fits cap avail (Write chunk # ops) =
     (length chunk \<le> cap - avail \<and> fits cap (avail + length chunk) ops)"
| "fits cap avail (Read sz uninit # ops) = (sz \<le> avail \<and> fits cap (avail - sz) ops)"

definition contents :: "RingBuffer \<Rightarrow> u8 list" where
  "contents rb =
     map (\<lambda>i. buffer rb ! ((readPos rb + i) mod capacity rb)) [0..<availableBytes rb]"

definition ring_inv :: "RingBuffer \<Rightarrow> bool" where
  "ring_inv rb \<longleftrightarrow>
     length (buffer rb) = capacity rb \<and> availableBytes rb \<le> capacity rb
     \<and> (if capacity rb = 0 then readPos rb = 0 \<and> writePos rb = 0
         else readPos rb < capacity rb
              \<and> writePos rb = (readPos rb + availableBytes rb) mod capacity rb)"

fun requested :: "ring_op list \<Rightarrow> nat list" where
  "requested [] = []"
| "requested (Write chunk # ops) = requested ops"
| "requested (Read sz uninit # ops) = sz # requested ops"

section \<open>The buffer pool (utils/buffer-pool.ts)\<close>











section \<open>Auxiliary notions\<close>

text \<open>Notions used to state invariants of the frame loop, and example inputs.\<close>

definition bridge_ready :: "WasmBridge \<Rightarrow> bool" where
  "bridge_ready br \<longleftrightarrow> initialized br \<and> module br \<noteq> None"

definition initialLoop :: "SceneDetector \<Rightarrow> VideoMetadata \<Rightarrow> WasmBridge \<Rightarrow> FrameLoop" where
  "initialLoop this md br =
     \<lparr>FrameLoop.scenes = [\<lparr>frameNumber = 0, timestamp = 0, timecode = ''00:00:00.000''\<rparr>],
      processedFrames = 0,
      detector = this\<lparr>wasmBridge := br,
                      state := (state this)\<lparr>fcode := calculateFcode (searchRange (options this))
                                                         (fst (resolution md)) (snd (resolution md))\<rparr>\<rparr>,
      analysed = []\<rparr>"

definition finish :: "VideoMetadata \<Rightarrow> int \<times> int \<Rightarrow> FrameLoop \<Rightarrow> DetectionResult" where
  "finish md clock L =
     \<lparr>DetectionResult.scenes = FrameLoop.scenes L, metadata = md,
      stats = \<lparr>processingTime = real_of_int (snd clock - fst clock) / 1000,
               framesPerSecond =
                 real (processedFrames L) / (real_of_int (snd clock - fst clock) / 1000)\<rparr>\<rparr>"

definition with_options :: "RequiredOptions \<Rightarrow> FrameLoop \<Rightarrow> FrameLoop" where
  "with_options ro L = L\<lparr>detector := (detector L)\<lparr>options := ro\<rparr>\<rparr>"

definition prev_valid :: "FrameLoop \<Rightarrow> bool" where
  "prev_valid L \<longleftrightarrow>
     (case prevFrame (state (detector L)) of None \<Rightarrow> True | Some p \<Rightarrow> validateFrame p = Inr ())"

definition example_frame :: "int \<Rightarrow> int \<Rightarrow> int \<Rightarrow> RawFrame" where
  "example_frame w h n =
     \<lparr>data = replicate (nat (w * h)) 0, RawFrame.width = w, RawFrame.height = h, stride = w,
      pts = real_of_int n / 24, RawFrame.frameNumber = n\<rparr>"

definition example_decoder :: "int \<Rightarrow> int \<Rightarrow> RawFrame list \<Rightarrow> Decoder" where
  "example_decoder w h fs =
     \<lparr>probe = Inr \<lparr>totalFrames = int (length fs), duration = real (length fs) / 24, fps = 24,
                    resolution = (w, h)\<rparr>,
      frames = fs, failure = None\<rparr>"

definition example_buffers :: "nat \<Rightarrow> stale" where
  "example_buffers k =
     \<lparr>prevRaw = (\<lambda>i. 0), curRaw = (\<lambda>i. 0), prevPadded = (\<lambda>i. 0), curPadded = (\<lambda>i. 0)\<rparr>"

definition always_cut :: analysis where
  "always_cut pRef pCur param count fc = 1"

definition no_options :: DetectionOptions where
  "no_options = \<lparr>DetectionOptions.sensitivity = None, DetectionOptions.customThresholds = None,
                 DetectionOptions.searchRange = None, DetectionOptions.temporalSmoothing = None\<rparr>"

definition example_ops :: "ring_op list" where
  "example_ops = [Write [1, 2, 3], Read 2 [], Write [4, 5, 6], Read 4 [7]]"


chapter \<open>Properties\<close>

section \<open>Search-range selection\<close>

text \<open>
  Claim C7. \<open>calculateFcode\<close> maps \<open>small\<close> to 2, \<open>medium\<close> to 4 and \<open>large\<close> to 6 for
  every width and height; for \<open>auto\<close> it returns 3 when the pixel count is at most
  720 * 480, else 4 when it is at most 1920 * 1080, else 5. In particular 704x480
  selects 3, 1280x720 selects 4 and 3840x2160 selects 5.
\<close>

theorem calculateFcode_table:
  "calculateFcode Small w h = 2
   \<and> calculateFcode MediumRange w h = 4
   \<and> calculateFcode Large w h = 6
   \<and> calculateFcode Auto w h =
       (if w * h \<le> 720 * 480 then 3 else if w * h \<le> 1920 * 1080 then 4 else 5)
   \<and> calculateFcode Auto 704 480 = 3
   \<and> calculateFcode Auto 1280 720 = 4
   \<and> calculateFcode Auto 3840 2160 = 5"
  by (simp add: calculateFcode_def)

section \<open>Plane padding\<close>

lemma u32_id: "n < 2 ^ 32 \<Longrightarrow> u32 n = n"
  by (simp add: u32_def)

lemma sub32_id: "b \<le> a \<Longrightarrow> a < 2 ^ 32 \<Longrightarrow> sub32 a b = a - b"
proof -
  assume h: "b \<le> a" "a < 2 ^ 32"
  then have b: "b mod 2 ^ 32 = b" by simp
  have "a + (2 ^ 32 - b) = (a - b) + 2 ^ 32" using h by simp
  then have "(a + (2 ^ 32 - b)) mod 2 ^ 32 = (a - b) mod 2 ^ 32"
    by (metis mod_add_self2)
  then show ?thesis using h b by (simp add: sub32_def)
qed

lemma idx_lt: "r < R \<Longrightarrow> x < E \<Longrightarrow> r * E + x < R * (E::nat)"
proof -
  assume h: "r < R" "x < E"
  have "r * E + x < Suc r * E" using h by simp
  also have "\<dots> \<le> R * E" using h by (intro mult_le_mono1) simp
  finally show ?thesis .
qed

lemma idx_range:
  fixes E :: nat
  assumes "x < E" "a + n \<le> E"
  shows "(q * E + a \<le> r * E + x \<and> r * E + x < q * E + a + n) \<longleftrightarrow> (r = q \<and> a \<le> x \<and> x < a + n)"
proof (cases "r = q")
  case True
  then show ?thesis by auto
next
  case False
  then consider "r < q" | "q < r" by linarith
  then show ?thesis
  proof cases
    case 1
    then have "Suc r * E \<le> q * E" by (intro mult_le_mono1) simp
    then have "r * E + x < q * E + a" using assms by simp
    then show ?thesis using False by simp
  next
    case 2
    then have "Suc q * E \<le> r * E" by (intro mult_le_mono1) simp
    then have "q * E + a + n \<le> r * E + x" using assms by simp
    then show ?thesis using False by simp
  qed
qed

lemma idx_eq:
  fixes E :: nat
  assumes "x < E" "c < E"
  shows "(r * E + x = q * E + c) \<longleftrightarrow> (r = q \<and> x = c)"
  using idx_range [of x E c 1 q r] assms by auto

lemma memcpy_at:
  fixes E :: nat
  assumes "x < E" "a + n \<le> E"
  shows "memcpy d (q * E + a) s off n (r * E + x) =
           (if r = q \<and> a \<le> x \<and> x < a + n then s (off + (x - a)) else d (r * E + x))"
  using idx_range [OF assms, of q r] by (auto simp: memcpy_def)

lemma upd_at:
  fixes E :: nat
  assumes "x < E" "c < E"
  shows "(d((q * E + c) := v)) (r * E + x) = (if r = q \<and> x = c then v else d (r * E + x))"
  using idx_eq [OF assms, of r q] by auto


lemma memset_at:
  fixes E :: nat
  assumes "x < E" "a + n \<le> E"
  shows "memset d (q * E + a) v n (r * E + x) =
           (if r = q \<and> a \<le> x \<and> x < a + n then v else d (r * E + x))"
  using idx_range [OF assms, of q r] by (auto simp: memset_def)

lemma memset_row0:
  fixes E :: nat
  assumes "x < E" "n \<le> E"
  shows "memset d (q * E) v n (r * E + x) = (if r = q \<and> x < n then v else d (r * E + x))"
  using memset_at [of x E 0 n d q v r] assms by simp

lemma memcpy_row:
  assumes "x < E"
  shows "memcpy d (q * E) s (p * E) E (r * E + x) =
           (if r = q then s (p * E + x) else d (r * E + x))"
  using memcpy_at [of x E 0 E d q s "p * E" r] assms by simp

lemma fold_upd_range:
  fixes d :: mem
  assumes "base + hi \<le> 2 ^ 32"
  shows "fold (\<lambda>i d'. d'(u32 (base + i) := v)) [lo..<hi] d = memset d (base + lo) v (hi - lo)"
    (is "fold ?f _ _ = _")
  using assms
proof (induction hi)
  case 0
  show ?case by (auto simp: memset_def fun_eq_iff)
next
  case (Suc hi)
  show ?case
  proof (cases "lo \<le> hi")
    case True
    have b: "base + hi < 2 ^ 32" using Suc.prems by simp
    have "base + hi \<le> 2 ^ 32" using Suc.prems by simp
    note IH = Suc.IH [OF this]
    have "fold ?f [lo..<Suc hi] d = (fold ?f [lo..<hi] d)(u32 (base + hi) := v)"
      using True by simp
    also have "\<dots> = (memset d (base + lo) v (hi - lo))(base + hi := v)"
      by (simp only: IH u32_id [OF b])
    also have "\<dots> = memset d (base + lo) v (Suc hi - lo)"
      using True by (auto simp: memset_def fun_eq_iff)
    finally show ?thesis .
  next
    case False
    then show ?thesis by (auto simp: memset_def fun_eq_iff)
  qed
qed

lemma row_bound:
  fixes E :: nat
  assumes "r < R" "R * E < 2 ^ 32" "c \<le> E"
  shows "r * E + c < 2 ^ 32"
proof -
  have "r * E + c \<le> Suc r * E" using assms by simp
  also have "\<dots> \<le> R * E" using assms by (intro mult_le_mono1) simp
  finally show ?thesis using assms by simp
qed

subsection \<open>Copying the rows\<close>

lemma copy_rows_body:
  assumes "x < E" "64 + W \<le> E" "y + 64 < R" "R * E < 2 ^ 32"
  shows "memcpy d (u32 ((y + 64) * E) + 64) src (u32 (y * W)) W (r * E + x)
           = (if r = y + 64 \<and> 64 \<le> x \<and> x < 64 + W
              then src (y * W + (x - 64)) else d (r * E + x))"
proof -
  have b1: "(y + 64) * E < 2 ^ 32"
    using row_bound [of "y + 64" R E 0] assms by simp
  have "y * W \<le> (y + 64) * E" using assms by (intro mult_le_mono) simp_all
  then have b2: "y * W < 2 ^ 32" using b1 by simp
  show ?thesis
    by (simp only: u32_id [OF b1] u32_id [OF b2] memcpy_at [OF assms(1,2)])
qed

lemma copy_rows_fold:
  assumes "x < E" "64 + W \<le> E" "H + 64 \<le> R" "R * E < 2 ^ 32" "n \<le> H"
  shows "fold (\<lambda>y d. memcpy d (u32 ((y + 64) * E) + 64) src (u32 (y * W)) W) [0..<n] d (r * E + x)
           = (if 64 \<le> r \<and> r < 64 + n \<and> 64 \<le> x \<and> x < 64 + W
              then src ((r - 64) * W + (x - 64)) else d (r * E + x))"
    (is "fold ?f _ _ _ = _")
  using assms(5)
proof (induction n)
  case 0
  show ?case by auto
next
  case (Suc n)
  have n: "n + 64 < R" using Suc.prems assms by simp
  have "n \<le> H" using Suc.prems by simp
  note IH = Suc.IH [OF this]
  have "fold ?f [0..<Suc n] d (r * E + x) = ?f n (fold ?f [0..<n] d) (r * E + x)"
    by simp
  also have "\<dots> = (if r = n + 64 \<and> 64 \<le> x \<and> x < 64 + W
              then src (n * W + (x - 64)) else fold ?f [0..<n] d (r * E + x))"
    by (rule copy_rows_body [OF assms(1,2) n assms(4)])
  also have "\<dots> = (if 64 \<le> r \<and> r < 64 + Suc n \<and> 64 \<le> x \<and> x < 64 + W
              then src ((r - 64) * W + (x - 64)) else d (r * E + x))"
    unfolding IH by auto
  finally show ?case .
qed

subsection \<open>Right edge\<close>

lemma pad_right_body:
  fixes d :: mem and src :: mem
  assumes "x < E" "64 + P \<le> E" "W \<le> P" "1 \<le> W" "y + 64 < R" "R * E < 2 ^ 32"
  shows "(let edge_value = src (sub32 (y * W + W) 1) in
          fold (\<lambda>x d'. d'(u32 ((y + 64) * E + 64 + x) := edge_value)) [W..<P] d) (r * E + x)
           = (if r = y + 64 \<and> 64 + W \<le> x \<and> x < 64 + P
              then src (y * W + (W - 1)) else d (r * E + x))"
proof -
  have b1: "(y + 64) * E + 64 + P \<le> 2 ^ 32"
    using row_bound [of "y + 64" R E "64 + P"] assms by simp
  have "Suc y * W \<le> (y + 64) * E" using assms by (intro mult_le_mono) simp_all
  then have b2: "y * W + W < 2 ^ 32" using b1 by simp
  have s: "sub32 (y * W + W) 1 = y * W + (W - 1)"
    using sub32_id [of 1 "y * W + W"] b2 assms by simp
  have a: "(y + 64) * E + 64 + W = (y + 64) * E + (64 + W)" by simp
  have le: "64 + W + (P - W) \<le> E" using assms by simp
  have "(let edge_value = src (sub32 (y * W + W) 1) in
          fold (\<lambda>x d'. d'(u32 ((y + 64) * E + 64 + x) := edge_value)) [W..<P] d)
        = memset d ((y + 64) * E + (64 + W)) (src (y * W + (W - 1))) (P - W)"
    unfolding Let_def by (simp only: fold_upd_range [OF b1] s a)
  then show ?thesis
    using assms(3) by (simp add: memset_at [OF assms(1) le])
qed

lemma pad_right_fold:
  fixes d :: mem and src :: mem
  assumes "x < E" "64 + P \<le> E" "W \<le> P" "1 \<le> W" "H + 64 \<le> R" "R * E < 2 ^ 32" "n \<le> H"
  shows "fold (\<lambda>y d.
                let edge_value = src (sub32 (y * W + W) 1) in
                fold (\<lambda>x d'. d'(u32 ((y + 64) * E + 64 + x) := edge_value)) [W..<P] d)
           [0..<n] d (r * E + x)
           = (if 64 \<le> r \<and> r < 64 + n \<and> 64 + W \<le> x \<and> x < 64 + P
              then src ((r - 64) * W + (W - 1)) else d (r * E + x))"
    (is "fold ?f _ _ _ = _")
  using assms(7)
proof (induction n)
  case 0
  show ?case by auto
next
  case (Suc n)
  have n: "n + 64 < R" using Suc.prems assms by simp
  have "n \<le> H" using Suc.prems by simp
  note IH = Suc.IH [OF this]
  have "fold ?f [0..<Suc n] d (r * E + x) = ?f n (fold ?f [0..<n] d) (r * E + x)"
    by simp
  also have "\<dots> = (if r = n + 64 \<and> 64 + W \<le> x \<and> x < 64 + P
              then src (n * W + (W - 1)) else fold ?f [0..<n] d (r * E + x))"
    by (rule pad_right_body [OF assms(1,2,3,4) n assms(6)])
  also have "\<dots> = (if 64 \<le> r \<and> r < 64 + Suc n \<and> 64 + W \<le> x \<and> x < 64 + P
              then src ((r - 64) * W + (W - 1)) else d (r * E + x))"
    unfolding IH by auto
  finally show ?case .
qed

subsection \<open>Bottom edge\<close>

lemma pad_bottom_body:
  assumes "x < E" "64 + P \<le> E" "1 \<le> H" "H \<le> y" "y + 64 < R" "R * E < 2 ^ 32"
  shows "memcpy d (u32 ((y + 64) * E) + 64) s (u32 ((sub32 H 1 + 64) * E) + 64) P (r * E + x)
           = (if r = y + 64 \<and> 64 \<le> x \<and> x < 64 + P
              then s ((H + 63) * E + x) else d (r * E + x))"
proof -
  have b1: "(y + 64) * E < 2 ^ 32"
    using row_bound [of "y + 64" R E 0] assms by simp
  have "H * 1 \<le> R * E" using assms by (intro mult_le_mono) simp_all
  then have hb: "H < 2 ^ 32" using assms by simp
  have s: "sub32 H 1 + 64 = H + 63" using sub32_id [of 1 H] hb assms by simp
  have b2: "(H + 63) * E < 2 ^ 32"
    using row_bound [of "H + 63" R E 0] assms by simp
  have "memcpy d (u32 ((y + 64) * E) + 64) s (u32 ((sub32 H 1 + 64) * E) + 64) P
          = memcpy d ((y + 64) * E + 64) s ((H + 63) * E + 64) P"
    by (simp only: s u32_id [OF b1] u32_id [OF b2])
  then show ?thesis
    by (auto simp: memcpy_at [OF assms(1,2)])
qed

lemma pad_bottom_fold:
  assumes "x < E" "64 + P \<le> E" "1 \<le> H" "PH + 64 \<le> R" "R * E < 2 ^ 32" "m \<le> PH"
  shows "fold (\<lambda>y d. memcpy d (u32 ((y + 64) * E) + 64)
                       d (u32 ((sub32 H 1 + 64) * E) + 64) P)
           [H..<m] d (r * E + x)
           = (if 64 + H \<le> r \<and> r < 64 + m \<and> 64 \<le> x \<and> x < 64 + P
              then d ((H + 63) * E + x) else d (r * E + x))"
    (is "fold ?f _ _ _ = _")
  using assms(6)
proof (induction m arbitrary: r)
  case 0
  show ?case by auto
next
  case (Suc m)
  show ?case
  proof (cases "H \<le> m")
    case False
    then show ?thesis by auto
  next
    case True
    have n: "m + 64 < R" using Suc.prems assms by simp
    have "m \<le> PH" using Suc.prems by simp
    note IH = Suc.IH [OF this]
    have "fold ?f [H..<Suc m] d (r * E + x) = ?f m (fold ?f [H..<m] d) (r * E + x)"
      using True by simp
    also have "\<dots> = (if r = m + 64 \<and> 64 \<le> x \<and> x < 64 + P
              then fold ?f [H..<m] d ((H + 63) * E + x) else fold ?f [H..<m] d (r * E + x))"
      by (rule pad_bottom_body [OF assms(1,2,3) True n assms(5)])
    also have "\<dots> = (if 64 + H \<le> r \<and> r < 64 + Suc m \<and> 64 \<le> x \<and> x < 64 + P
              then d ((H + 63) * E + x) else d (r * E + x))"
      unfolding IH using True by auto
    finally show ?thesis .
  qed
qed


subsection \<open>Top and bottom borders\<close>

lemma pad_top_bottom_body:
  fixes d :: mem
  assumes "x < E" "i < 64" "129 \<le> R" "R * E < 2 ^ 32"
  shows "(let d1 = memcpy d (u32 (i * E)) d (u32 (64 * E)) E
          in memcpy d1 (u32 (sub32 (sub32 R 1) i * E))
               d1 (u32 (sub32 (sub32 R 1) 64 * E)) E) (r * E + x)
           = (if r = R - 1 - i then d ((R - 65) * E + x)
              else if r = i then d (64 * E + x) else d (r * E + x))"
proof -
  have "0 < E" using assms(1) by simp
  then have "R \<le> R * E" by simp
  then have rb: "R < 2 ^ 32" using assms(4) by (rule order.strict_trans1)
  have s1: "sub32 R 1 = R - 1" using sub32_id [of 1 R] rb assms by simp
  have s2: "sub32 (R - 1) i = R - 1 - i" using sub32_id [of i "R - 1"] rb assms by simp
  have s3: "sub32 (R - 1) 64 = R - 65" using sub32_id [of 64 "R - 1"] rb assms by simp
  have b1: "i * E < 2 ^ 32" using row_bound [of i R E 0] assms by simp
  have b2: "64 * E < 2 ^ 32" using row_bound [of 64 R E 0] assms by simp
  have b3: "(R - 1 - i) * E < 2 ^ 32" using row_bound [of "R - 1 - i" R E 0] assms by simp
  have b4: "(R - 65) * E < 2 ^ 32" using row_bound [of "R - 65" R E 0] assms by simp
  have ne: "R - 65 \<noteq> i" using assms by simp
  have eq: "(let d1 = memcpy d (u32 (i * E)) d (u32 (64 * E)) E
          in memcpy d1 (u32 (sub32 (sub32 R 1) i * E))
               d1 (u32 (sub32 (sub32 R 1) 64 * E)) E)
        = memcpy (memcpy d (i * E) d (64 * E) E) ((R - 1 - i) * E)
            (memcpy d (i * E) d (64 * E) E) ((R - 65) * E) E"
    unfolding Let_def
    by (simp only: s1 s2 s3 u32_id [OF b1] u32_id [OF b2] u32_id [OF b3] u32_id [OF b4])
  show ?thesis
    unfolding eq using ne by (simp add: memcpy_row [OF assms(1)])
qed

lemma pad_top_bottom_fold:
  fixes d :: mem
  assumes "x < E" "129 \<le> R" "R * E < 2 ^ 32" "n \<le> 64"
  shows "fold (\<lambda>i d.
             let d1 = memcpy d (u32 (i * E)) d (u32 (64 * E)) E
             in memcpy d1 (u32 (sub32 (sub32 R 1) i * E))
                  d1 (u32 (sub32 (sub32 R 1) 64 * E)) E)
           [0..<n] d (r * E + x)
           = (if r < n then d (64 * E + x)
              else if R - n \<le> r \<and> r < R then d ((R - 65) * E + x)
              else d (r * E + x))"
    (is "fold ?f _ _ _ = _")
  using assms(4)
proof (induction n arbitrary: r)
  case 0
  show ?case by auto
next
  case (Suc n)
  have n: "n < 64" using Suc.prems by simp
  have "n \<le> 64" using Suc.prems by simp
  note IH = Suc.IH [OF this]
  have "fold ?f [0..<Suc n] d (r * E + x) = ?f n (fold ?f [0..<n] d) (r * E + x)"
    by simp
  also have "\<dots> = (if r = R - 1 - n then fold ?f [0..<n] d ((R - 65) * E + x)
              else if r = n then fold ?f [0..<n] d (64 * E + x)
              else fold ?f [0..<n] d (r * E + x))"
    by (rule pad_top_bottom_body [OF assms(1) n assms(2,3)])
  also have "\<dots> = (if r < Suc n then d (64 * E + x)
              else if R - Suc n \<le> r \<and> r < R then d ((R - 65) * E + x)
              else d (r * E + x))"
    unfolding IH using n assms(2) by auto
  finally show ?case .
qed

subsection \<open>Left and right borders\<close>

lemma pad_left_right_body:
  fixes d :: mem
  assumes "x < E" "128 + P \<le> E" "y < R" "R * E < 2 ^ 32"
  shows "(let left_val = d (u32 (y * E + 64));
              right_val = d (sub32 (y * E + 64 + P) 1);
              d1 = fold (\<lambda>i d'. d'(u32 (y * E + i) := left_val)) [0..<64] d
          in fold (\<lambda>i d'. d'(u32 (y * E + 64 + P + i) := right_val)) [0..<64] d1) (r * E + x)
           = (if r = y \<and> 64 + P \<le> x \<and> x < 128 + P then d (y * E + (63 + P))
              else if r = y \<and> x < 64 then d (y * E + 64)
              else d (r * E + x))"
proof -
  have b0: "y * E + (128 + P) < 2 ^ 32" using row_bound [of y R E "128 + P"] assms by simp
  have b1: "y * E + 64 < 2 ^ 32" using b0 by simp
  have b2: "y * E + 64 + P < 2 ^ 32" using b0 by simp
  have b3: "y * E + 64 \<le> 2 ^ 32" using b0 by simp
  have b4: "y * E + 64 + P + 64 \<le> 2 ^ 32" using b0 by simp
  have s: "sub32 (y * E + 64 + P) 1 = y * E + (63 + P)"
    using sub32_id [of 1 "y * E + 64 + P"] b2 by simp
  have l1: "64 \<le> E" using assms by simp
  have l2: "64 + P + 64 \<le> E" using assms by simp
  have "(let left_val = d (u32 (y * E + 64));
              right_val = d (sub32 (y * E + 64 + P) 1);
              d1 = fold (\<lambda>i d'. d'(u32 (y * E + i) := left_val)) [0..<64] d
          in fold (\<lambda>i d'. d'(u32 (y * E + 64 + P + i) := right_val)) [0..<64] d1)
        = memset (memset d (y * E + 0) (d (y * E + 64)) (64 - 0))
            (y * E + 64 + P + 0) (d (y * E + (63 + P))) (64 - 0)"
    unfolding Let_def
    by (simp only: s u32_id [OF b1] fold_upd_range [OF b3] fold_upd_range [OF b4])
  also have "\<dots> = memset (memset d (y * E) (d (y * E + 64)) 64)
            (y * E + (64 + P)) (d (y * E + (63 + P))) 64"
    by (simp add: add.assoc)
  finally have eq: "(let left_val = d (u32 (y * E + 64));
              right_val = d (sub32 (y * E + 64 + P) 1);
              d1 = fold (\<lambda>i d'. d'(u32 (y * E + i) := left_val)) [0..<64] d
          in fold (\<lambda>i d'. d'(u32 (y * E + 64 + P + i) := right_val)) [0..<64] d1)
        = memset (memset d (y * E) (d (y * E + 64)) 64)
            (y * E + (64 + P)) (d (y * E + (63 + P))) 64" .
  show ?thesis
    unfolding eq by (simp add: memset_row0 [OF assms(1) l1] memset_at [OF assms(1) l2])
qed

lemma pad_left_right_fold:
  fixes d :: mem
  assumes "128 + P \<le> E" "R * E < 2 ^ 32" "n \<le> R" "x < E"
  shows "fold (\<lambda>y d.
             let left_val = d (u32 (y * E + 64));
                 right_val = d (sub32 (y * E + 64 + P) 1);
                 d1 = fold (\<lambda>i d'. d'(u32 (y * E + i) := left_val)) [0..<64] d
             in fold (\<lambda>i d'. d'(u32 (y * E + 64 + P + i) := right_val)) [0..<64] d1)
           [0..<n] d (r * E + x)
           = (if r < n \<and> 64 + P \<le> x \<and> x < 128 + P then d (r * E + (63 + P))
              else if r < n \<and> x < 64 then d (r * E + 64)
              else d (r * E + x))"
    (is "fold ?f _ _ _ = _")
  using assms(3,4)
proof (induction n arbitrary: r x)
  case 0
  show ?case by auto
next
  case (Suc n)
  have n: "n < R" using Suc.prems by simp
  have "n \<le> R" using Suc.prems by simp
  note IH = Suc.IH [OF this]
  have x1: "63 + P < E" and x2: "64 < E" using assms by simp_all
  have "fold ?f [0..<Suc n] d (r * E + x) = ?f n (fold ?f [0..<n] d) (r * E + x)"
    by simp
  also have "\<dots> = (if r = n \<and> 64 + P \<le> x \<and> x < 128 + P
                        then fold ?f [0..<n] d (n * E + (63 + P))
              else if r = n \<and> x < 64 then fold ?f [0..<n] d (n * E + 64)
              else fold ?f [0..<n] d (r * E + x))"
    by (rule pad_left_right_body [OF Suc.prems(2) assms(1) n assms(2)])
  also have "\<dots> = (if r < Suc n \<and> 64 + P \<le> x \<and> x < 128 + P then d (r * E + (63 + P))
              else if r < Suc n \<and> x < 64 then d (r * E + 64)
              else d (r * E + x))"
    unfolding IH [OF x1] IH [OF x2] IH [OF Suc.prems(2)] by auto
  finally show ?case .
qed


subsection \<open>The whole padding\<close>

lemma rows_padded_at:
  fixes d0 :: mem and src :: mem
  assumes "1 \<le> W" "W \<le> P" "H + 64 \<le> R" "R * (P + 128) < 2 ^ 32"
    and "64 \<le> r" "r < 64 + H" "64 \<le> x" "x < 64 + P"
  shows "pad_right src W H P (P + 128) (copy_rows src W H (P + 128) d0) (r * (P + 128) + x)
           = src ((r - 64) * W + min (x - 64) (W - 1))"
proof -
  have x: "x < P + 128" using assms by simp
  have w: "64 + W \<le> P + 128" using assms by simp
  have p: "64 + P \<le> P + 128" by simp
  have c: "copy_rows src W H (P + 128) d0 (r * (P + 128) + x)
             = (if 64 \<le> r \<and> r < 64 + H \<and> 64 \<le> x \<and> x < 64 + W
                then src ((r - 64) * W + (x - 64)) else d0 (r * (P + 128) + x))"
    unfolding copy_rows_def
    by (rule copy_rows_fold [OF x w assms(3,4) order_refl])
  show ?thesis
  proof (cases "W < P")
    case True
    have "pad_right src W H P (P + 128) (copy_rows src W H (P + 128) d0) (r * (P + 128) + x)
            = (if 64 \<le> r \<and> r < 64 + H \<and> 64 + W \<le> x \<and> x < 64 + P
               then src ((r - 64) * W + (W - 1))
               else copy_rows src W H (P + 128) d0 (r * (P + 128) + x))"
      unfolding pad_right_def if_P [OF True]
      by (rule pad_right_fold [OF x p assms(2,1,3,4) order_refl])
    then show ?thesis
      unfolding c using assms by (auto simp: min_def)
  next
    case False
    then have "pad_right src W H P (P + 128) (copy_rows src W H (P + 128) d0) (r * (P + 128) + x)
            = copy_rows src W H (P + 128) d0 (r * (P + 128) + x)"
      by (simp add: pad_right_def)
    then show ?thesis
      unfolding c using assms False by (auto simp: min_def)
  qed
qed

lemma interior_at:
  fixes d0 :: mem and src :: mem
  assumes "1 \<le> W" "W \<le> P" "1 \<le> H" "H \<le> PH" "(PH + 128) * (P + 128) < 2 ^ 32"
    and "64 \<le> r" "r < 64 + PH" "64 \<le> x" "x < 64 + P"
  shows "pad_bottom H P PH (P + 128)
           (pad_right src W H P (P + 128) (copy_rows src W H (P + 128) d0)) (r * (P + 128) + x)
           = src (min (r - 64) (H - 1) * W + min (x - 64) (W - 1))"
    (is "pad_bottom H P PH ?E ?d2 _ = _")
proof -
  have x: "x < P + 128" using assms by simp
  have p: "64 + P \<le> P + 128" by simp
  have h: "H + 64 \<le> PH + 128" using assms by simp
  have ph: "PH + 64 \<le> PH + 128" by simp
  have d2: "\<And>r. 64 \<le> r \<Longrightarrow> r < 64 + H \<Longrightarrow>
              ?d2 (r * ?E + x) = src ((r - 64) * W + min (x - 64) (W - 1))"
    by (rule rows_padded_at [OF assms(1,2) h assms(5) _ _ assms(8,9)])
  have last: "?d2 ((H + 63) * ?E + x) = src ((H - 1) * W + min (x - 64) (W - 1))"
    using d2 [of "H + 63"] assms(3) by simp
  show ?thesis
  proof (cases "H < PH")
    case True
    have "pad_bottom H P PH ?E ?d2 (r * ?E + x)
            = (if 64 + H \<le> r \<and> r < 64 + PH \<and> 64 \<le> x \<and> x < 64 + P
               then ?d2 ((H + 63) * ?E + x) else ?d2 (r * ?E + x))"
      unfolding pad_bottom_def if_P [OF True]
      by (rule pad_bottom_fold [OF x p assms(3) ph assms(5) order_refl])
    then show ?thesis
      using assms last d2 [of r] by (auto simp: min_def)
  next
    case False
    then have "pad_bottom H P PH ?E ?d2 (r * ?E + x) = ?d2 (r * ?E + x)"
      by (simp add: pad_bottom_def)
    then show ?thesis
      using assms False d2 [of r] by (auto simp: min_def)
  qed
qed

lemma borders_at:
  fixes d3 :: mem
  assumes "1 \<le> P" "1 \<le> PH" "(PH + 128) * (P + 128) < 2 ^ 32"
    and "y < PH + 128" "x < P + 128"
  shows "pad_left_right P (P + 128) (PH + 128) (pad_top_bottom (P + 128) (PH + 128) d3)
           (y * (P + 128) + x)
           = d3 ((64 + min (y - 64) (PH - 1)) * (P + 128) + (64 + min (x - 64) (P - 1)))"
    (is "pad_left_right P ?E ?R ?d4 _ = _")
proof -
  have e: "128 + P \<le> ?E" by simp
  have r: "129 \<le> ?R" using assms by simp
  have tb: "\<And>x. x < ?E \<Longrightarrow> ?d4 (y * ?E + x)
              = (if y < 64 then d3 (64 * ?E + x)
                 else if ?R - 64 \<le> y \<and> y < ?R then d3 ((?R - 65) * ?E + x)
                 else d3 (y * ?E + x))"
    unfolding pad_top_bottom_def
    by (rule pad_top_bottom_fold [OF _ r assms(3) order_refl])
  have row: "\<And>x. x < ?E \<Longrightarrow> ?d4 (y * ?E + x)
               = d3 ((64 + min (y - 64) (PH - 1)) * ?E + x)"
    using assms(2,4) by (auto simp: tb min_def)
  have "pad_left_right P ?E ?R ?d4 (y * ?E + x)
          = (if y < ?R \<and> 64 + P \<le> x \<and> x < 128 + P then ?d4 (y * ?E + (63 + P))
             else if y < ?R \<and> x < 64 then ?d4 (y * ?E + 64)
             else ?d4 (y * ?E + x))"
    unfolding pad_left_right_def
    by (rule pad_left_right_fold [OF e assms(3) order_refl assms(5)])
  also have "\<dots> = ?d4 (y * ?E + (64 + min (x - 64) (P - 1)))"
    using assms(1,4,5) by (auto simp: min_def)
  also have "\<dots> = d3 ((64 + min (y - 64) (PH - 1)) * ?E + (64 + min (x - 64) (P - 1)))"
  proof -
    have "min (x - 64) (P - 1) \<le> P - 1" by simp
    then have "64 + min (x - 64) (P - 1) < P + 128" using assms(1) by linarith
    then show ?thesis by (rule row)
  qed
  finally show ?thesis .
qed

lemma pad_frame_unfold:
  assumes "(16 * ((H + 15) div 16) + 128) * (16 * ((W + 15) div 16) + 128) < 2 ^ 32"
  shows "pad_frame src dst W H
           = pad_left_right (16 * ((W + 15) div 16)) (16 * ((W + 15) div 16) + 128)
               (16 * ((H + 15) div 16) + 128)
               (pad_top_bottom (16 * ((W + 15) div 16) + 128) (16 * ((H + 15) div 16) + 128)
                 (pad_bottom H (16 * ((W + 15) div 16)) (16 * ((H + 15) div 16))
                    (16 * ((W + 15) div 16) + 128)
                   (pad_right src W H (16 * ((W + 15) div 16)) (16 * ((W + 15) div 16) + 128)
                     (copy_rows src W H (16 * ((W + 15) div 16) + 128)
                       (memset dst 0 0
                          ((16 * ((W + 15) div 16) + 128) * (16 * ((H + 15) div 16) + 128)))))))"
    (is "_ = ?rhs")
proof -
  let ?P = "16 * ((W + 15) div 16)" and ?PH = "16 * ((H + 15) div 16)"
  have le: "?PH + 128 \<le> (?PH + 128) * (?P + 128)" "?P + 128 \<le> (?PH + 128) * (?P + 128)"
    by simp_all
  have e: "?P + 128 < 2 ^ 32" and r: "?PH + 128 < 2 ^ 32"
    using le assms by linarith+
  have w: "W + 15 < 2 ^ 32" and h: "H + 15 < 2 ^ 32"
    using e r by linarith+
  have p: "?P < 2 ^ 32" and ph: "?PH < 2 ^ 32"
    using e r by linarith+
  have t: "(?P + 128) * (?PH + 128) < 2 ^ 32"
    using assms by (simp add: mult.commute)
  have u: "u32 (W + 15) = W + 15" "u32 (H + 15) = H + 15"
          "u32 (?P + 128) = ?P + 128" "u32 (?PH + 128) = ?PH + 128"
          "u32 ?P = ?P" "u32 ?PH = ?PH"
          "u32 ((?P + 128) * (?PH + 128)) = (?P + 128) * (?PH + 128)"
    using w h e r p ph t by (simp_all add: u32_id)
  have c: "(W + 15) div 16 * 16 = ?P" "(H + 15) div 16 * 16 = ?PH" "2 * 64 = (128::nat)"
    by simp_all
  show ?thesis
    unfolding pad_frame_def Let_def u c ..
qed


lemma pad_frame_pixel:
  fixes src :: mem and dst :: mem
  assumes "1 \<le> W" "1 \<le> H"
    and "(16 * ((W + 15) div 16) + 128) * (16 * ((H + 15) div 16) + 128) < 2 ^ 32"
    and "x < 16 * ((W + 15) div 16) + 128" "y < 16 * ((H + 15) div 16) + 128"
  shows "pad_frame src dst W H (y * (16 * ((W + 15) div 16) + 128) + x)
           = src (min (y - 64) (H - 1) * W + min (x - 64) (W - 1))"
proof -
  define P where "P = 16 * ((W + 15) div 16)"
  define PH where "PH = 16 * ((H + 15) div 16)"
  have wp: "W \<le> P" and hp: "H \<le> PH"
    unfolding P_def PH_def by presburger+
  have p1: "1 \<le> P" and ph1: "1 \<le> PH"
    using wp hp assms(1,2) by linarith+
  have t0: "(16 * ((H + 15) div 16) + 128) * (16 * ((W + 15) div 16) + 128) < 2 ^ 32"
    using assms(3) by (simp add: mult.commute)
  have t: "(PH + 128) * (P + 128) < 2 ^ 32"
    unfolding P_def PH_def by (rule t0)
  have xb: "x < P + 128" and yb: "y < PH + 128"
    unfolding P_def PH_def by (rule assms(4), rule assms(5))
  have u: "pad_frame src dst W H
             = pad_left_right P (P + 128) (PH + 128)
                 (pad_top_bottom (P + 128) (PH + 128)
                   (pad_bottom H P PH (P + 128)
                     (pad_right src W H P (P + 128)
                       (copy_rows src W H (P + 128)
                         (memset dst 0 0 ((P + 128) * (PH + 128)))))))"
    unfolding P_def PH_def by (rule pad_frame_unfold [OF t0])
  define r where "r = 64 + min (y - 64) (PH - 1)"
  define c where "c = 64 + min (x - 64) (P - 1)"
  have "min (y - 64) (PH - 1) \<le> PH - 1" and "min (x - 64) (P - 1) \<le> P - 1"
    by simp_all
  then have rc: "64 \<le> r" "r < 64 + PH" "64 \<le> c" "c < 64 + P"
    unfolding r_def c_def using p1 ph1 by linarith+
  have "pad_frame src dst W H (y * (P + 128) + x)
          = src (min (r - 64) (H - 1) * W + min (c - 64) (W - 1))"
    unfolding u borders_at [OF p1 ph1 t yb xb] r_def [symmetric] c_def [symmetric]
    by (rule interior_at [OF assms(1) wp assms(2) hp t rc])
  also have "min (r - 64) (H - 1) = min (y - 64) (H - 1)"
    unfolding r_def using hp by linarith
  also have "min (c - 64) (W - 1) = min (x - 64) (W - 1)"
    unfolding c_def using wp by linarith
  finally show ?thesis
    unfolding P_def .
qed

lemma clamped_index:
  fixes W H :: nat
  assumes "1 \<le> W" "1 \<le> H"
  shows "min (y - 64) (H - 1) * W + min (x - 64) (W - 1) < W * H"
proof -
  have m1: "min (x - 64) (W - 1) \<le> W - 1" and m2: "min (y - 64) (H - 1) \<le> H - 1"
    by simp_all
  have "min (y - 64) (H - 1) * W + min (x - 64) (W - 1) < min (y - 64) (H - 1) * W + W"
    using m1 assms(1) by linarith
  also have "\<dots> = Suc (min (y - 64) (H - 1)) * W" by simp
  also have "\<dots> \<le> H * W"
  proof (rule mult_le_mono1)
    show "Suc (min (y - 64) (H - 1)) \<le> H" using m2 assms(2) by linarith
  qed
  finally show ?thesis by (simp add: mult.commute)
qed

lemma ceil16: "nat \<lceil>real n / 16\<rceil> = (n + 15) div 16"
proof -
  define q where "q = (n + 15) div 16"
  have a: "n \<le> 16 * q" and b: "16 * q < n + 16"
    unfolding q_def by presburger+
  have "real n \<le> real (16 * q)" using a by (simp only: of_nat_le_iff)
  then have a': "real n / 16 \<le> of_int (int q)" by simp
  have "real (16 * q) < real (n + 16)" using b by (simp only: of_nat_less_iff)
  then have b': "of_int (int q) - 1 < real n / 16" by simp
  have "\<lceil>real n / 16\<rceil> = int q" using b' a' by (rule ceiling_unique)
  then show ?thesis by (simp add: q_def)
qed

text \<open>
  Claim C3. For a width and a height of at least 1 whose padded plane \<open>EW * EH\<close>
  (\<open>EW = 16 * ceil (W / 16) + 128\<close>, \<open>EH = 16 * ceil (H / 16) + 128\<close>) is addressable
  with 32 bits, \<open>pad_frame\<close> leaves at every position \<open>(x, y)\<close> of the destination plane
  the source byte at row \<open>min (max (y - 64) 0) (H - 1)\<close> and column
  \<open>min (max (x - 64) 0) (W - 1)\<close>, whatever the destination held before. In particular
  a plane of constant value is padded to a plane of that value.
\<close>

theorem pad_frame_edge_replicated:
  fixes src :: mem and dst :: mem
  assumes "1 \<le> W" "1 \<le> H"
    and "EW = 16 * nat \<lceil>real W / 16\<rceil> + 128" "EH = 16 * nat \<lceil>real H / 16\<rceil> + 128"
    and "EW * EH < 2 ^ 32"
  shows "(\<forall>x<EW. \<forall>y<EH.
            pad_frame src dst W H (y * EW + x)
              = src (nat (min (max (int y - 64) 0) (int H - 1) * int W
                          + min (max (int x - 64) 0) (int W - 1))))
         \<and> ((\<forall>i < W * H. src i = v) \<longrightarrow>
              (\<forall>x<EW. \<forall>y<EH. pad_frame src dst W H (y * EW + x) = v))"
proof -
  have ew: "EW = 16 * ((W + 15) div 16) + 128" and eh: "EH = 16 * ((H + 15) div 16) + 128"
    using assms(3,4) by (simp_all add: ceil16)
  have t: "(16 * ((W + 15) div 16) + 128) * (16 * ((H + 15) div 16) + 128) < 2 ^ 32"
    using assms(5) by (simp add: ew eh)
  have px: "pad_frame src dst W H (y * EW + x)
              = src (min (y - 64) (H - 1) * W + min (x - 64) (W - 1))"
    if "x < EW" "y < EH" for x y
    using pad_frame_pixel [OF assms(1,2) t, of x y] that by (simp add: ew eh)
  have idx: "nat (min (max (int y - 64) 0) (int H - 1) * int W
                  + min (max (int x - 64) 0) (int W - 1))
               = min (y - 64) (H - 1) * W + min (x - 64) (W - 1)" for x y
  proof -
    have a: "min (max (int y - 64) 0) (int H - 1) = int (min (y - 64) (H - 1))"
      using assms(2) by linarith
    have b: "min (max (int x - 64) 0) (int W - 1) = int (min (x - 64) (W - 1))"
      using assms(1) by linarith
    show ?thesis
      unfolding a b by (simp flip: of_nat_mult of_nat_add)
  qed
  have inside: "min (y - 64) (H - 1) * W + min (x - 64) (W - 1) < W * H" for x y
    by (rule clamped_index [OF assms(1,2)])
  show ?thesis
  proof (intro conjI allI impI)
    fix x y
    assume "x < EW" "y < EH"
    then show "pad_frame src dst W H (y * EW + x)
              = src (nat (min (max (int y - 64) 0) (int H - 1) * int W
                          + min (max (int x - 64) 0) (int W - 1)))"
      unfolding idx by (rule px)
  next
    fix x y
    assume c: "\<forall>i < W * H. src i = v" and "x < EW" "y < EH"
    then have "pad_frame src dst W H (y * EW + x)
                 = src (min (y - 64) (H - 1) * W + min (x - 64) (W - 1))"
      by (intro px)
    also have "\<dots> = v" by (rule c [rule_format, OF inside])
    finally show "pad_frame src dst W H (y * EW + x) = v" .
  qed
qed

theorem pad_frame_edge_replicated_witness:
  "pad_frame (\<lambda>i. if i < 6 then of_nat i else 9) (\<lambda>i. 9) 3 2 (65 * 144 + 143) = 5
   \<and> pad_frame (\<lambda>i. 7) (\<lambda>i. 9) 3 2 (0 * 144 + 0) = 7"
proof -
  have e: "(144::nat) = 16 * nat \<lceil>real 3 / 16\<rceil> + 128"
          "(144::nat) = 16 * nat \<lceil>real 2 / 16\<rceil> + 128"
    unfolding ceil16 by simp_all
  have p: "(1::nat) \<le> 3" "(1::nat) \<le> 2" "(144::nat) * 144 < 2 ^ 32"
    by simp_all
  have x: "(143::nat) < 144" "(65::nat) < 144" "(0::nat) < 144"
    by simp_all
  have a: "pad_frame (\<lambda>i. if i < 6 then of_nat i else 9) (\<lambda>i. 9) 3 2 (65 * 144 + 143) = 5"
    using pad_frame_edge_replicated [OF p(1,2) e p(3), THEN conjunct1, rule_format, OF x(1,2),
        of "\<lambda>i. if i < 6 then of_nat i else 9" "\<lambda>i. 9"]
    by simp
  have b: "pad_frame (\<lambda>i. 7) (\<lambda>i. 9) 3 2 (0 * 144 + 0) = 7"
    using pad_frame_edge_replicated [of 3 2 144 144 "\<lambda>i. 7" "\<lambda>i. 9" 7,
        OF p(1,2) e p(3), THEN conjunct2, rule_format, OF _ x(3) x(3)]
    by simp
  show ?thesis using a b by (rule conjI)
qed

section \<open>Detection driver\<close>

lemma deliver_append:
  "deliver f L (xs @ ys) = (case deliver f L xs of Inl e \<Rightarrow> Inl e | Inr L' \<Rightarrow> deliver f L' ys)"
  by (induction xs arbitrary: L) (auto split: sum.splits)

lemma ensureInitialized_ready: "ensureInitialized br = Inr u \<longleftrightarrow> bridge_ready br"
  by (auto simp: ensureInitialized_def bridge_ready_def)





lemma onFrame_invalid:
  assumes "validateFrame f = Inl e"
  shows "onFrame fmt bufs L f = Inl e"
  using assms by (simp add: onFrame_def)

lemma onFrame_first:
  assumes "validateFrame f = Inr ()" "prevFrame (state (detector L)) = None"
  shows "onFrame fmt bufs L f =
           Inr (L\<lparr>processedFrames := processedFrames L + 1,
                  detector := (detector L)\<lparr>state := (state (detector L))
                                \<lparr>curFrame := Some f, prevFrame := Some f\<rparr>\<rparr>\<rparr>)"
  using assms by (simp add: onFrame_def Let_def)

lemma onFrame_next:
  assumes "validateFrame f = Inr ()" "prevFrame (state (detector L)) = Some p"
  shows "onFrame fmt bufs L f =
           (case detectSceneChange (bufs (processedFrames L)) (wasmBridge (detector L)) p f
                   (intraCount (state (detector L))) (fcode (state (detector L))) of
              Inl e \<Rightarrow> Inl e
            | Inr (isCut, br) \<Rightarrow>
                Inr (L\<lparr>FrameLoop.scenes :=
                         (if isCut
                          then FrameLoop.scenes L @
                                 [\<lparr>frameNumber = RawFrame.frameNumber f, timestamp = pts f,
                                   timecode = fmt (pts f)\<rparr>]
                          else FrameLoop.scenes L),
                       processedFrames := processedFrames L + 1,
                       detector := (detector L)
                         \<lparr>wasmBridge := br,
                          state := (state (detector L))
                            \<lparr>curFrame := Some f,
                             intraCount := (if isCut then 1 else intraCount (state (detector L)) + 1),
                             prevFrame := Some f\<rparr>\<rparr>,
                       analysed := analysed L @ [(p, f)]\<rparr>))"
  using assms by (simp add: onFrame_def Let_def split: sum.splits prod.splits)

lemma onFrame_Inr:
  assumes "onFrame fmt bufs L f = Inr L'"
  shows "validateFrame f = Inr ()"
    and "prevFrame (state (detector L')) = Some f"
    and "processedFrames L' = processedFrames L + 1"
    and "prevFrame (state (detector L)) = None \<Longrightarrow>
           FrameLoop.scenes L' = FrameLoop.scenes L \<and> analysed L' = analysed L"
    and "prevFrame (state (detector L)) = Some p \<Longrightarrow>
           analysed L' = analysed L @ [(p, f)]
           \<and> (FrameLoop.scenes L' = FrameLoop.scenes L
              \<or> FrameLoop.scenes L' = FrameLoop.scenes L @
                   [\<lparr>frameNumber = RawFrame.frameNumber f, timestamp = pts f,
                     timecode = fmt (pts f)\<rparr>])"
proof -
  show v: "validateFrame f = Inr ()"
    using assms by (cases "validateFrame f") (simp_all add: onFrame_invalid)
  show "prevFrame (state (detector L')) = Some f"
    and "processedFrames L' = processedFrames L + 1"
    using assms
    by (cases "prevFrame (state (detector L))";
        auto simp: onFrame_first [OF v] onFrame_next [OF v] split: sum.splits prod.splits)+
  show "FrameLoop.scenes L' = FrameLoop.scenes L \<and> analysed L' = analysed L"
    if "prevFrame (state (detector L)) = None"
    using assms that by (auto simp: onFrame_first [OF v])
  show "analysed L' = analysed L @ [(p, f)]
           \<and> (FrameLoop.scenes L' = FrameLoop.scenes L
              \<or> FrameLoop.scenes L' = FrameLoop.scenes L @
                   [\<lparr>frameNumber = RawFrame.frameNumber f, timestamp = pts f,
                     timecode = fmt (pts f)\<rparr>])"
    if "prevFrame (state (detector L)) = Some p"
    using assms that by (auto simp: onFrame_next [OF v] split: sum.splits prod.splits)
qed





lemma detect_unfold:
  "detect loaded fmt bufs clock dec this =
     (case init loaded (wasmBridge this) of
        Inl e \<Rightarrow> Inl e
      | Inr br0 \<Rightarrow>
          (case probe dec of
             Inl e \<Rightarrow> Inl e
           | Inr md \<Rightarrow>
               (case allocateBuffers br0 (fst (resolution md)) (snd (resolution md)) of
                  Inl e \<Rightarrow> Inl e
                | Inr br1 \<Rightarrow>
                    (case deliver (onFrame fmt bufs) (initialLoop this md br1) (frames dec) of
                       Inl e \<Rightarrow> Inl e
                     | Inr L \<Rightarrow>
                         (case failure dec of
                            Some e \<Rightarrow> Inl e
                          | None \<Rightarrow> Inr (finish md clock L, L))))))"
  by (simp add: detect_def extractFrames_def initialLoop_def finish_def Let_def
      split: sum.splits option.splits)

lemma detect_Inr:
  assumes "detect loaded fmt bufs clock dec this = Inr (r, L)"
  obtains br0 md br1 where
    "init loaded (wasmBridge this) = Inr br0" "probe dec = Inr md"
    "allocateBuffers br0 (fst (resolution md)) (snd (resolution md)) = Inr br1"
    "deliver (onFrame fmt bufs) (initialLoop this md br1) (frames dec) = Inr L"
    "failure dec = None" "r = finish md clock L"
  using assms unfolding detect_unfold
  by (auto split: sum.splits option.splits)

lemma detect_extend_fail:
  assumes ok: "detect loaded fmt bufs clock (dec\<lparr>frames := pre, failure := None\<rparr>) this = Inr (r, L)"
    and bad: "onFrame fmt bufs L f = Inl e"
  shows "detect loaded fmt bufs clock' (dec\<lparr>frames := pre @ f # post\<rparr>) this = Inl e"
proof -
  from ok obtain br0 md br1 where
    i: "init loaded (wasmBridge this) = Inr br0" and p: "probe dec = Inr md"
    and a: "allocateBuffers br0 (fst (resolution md)) (snd (resolution md)) = Inr br1"
    and d: "deliver (onFrame fmt bufs) (initialLoop this md br1) pre = Inr L"
    by (rule detect_Inr) simp_all
  have "deliver (onFrame fmt bufs) (initialLoop this md br1) (pre @ f # post) = Inl e"
    using d bad by (simp add: deliver_append)
  then show ?thesis
    using i p a by (simp add: detect_unfold)
qed



lemmas run_simps =
  detect_unfold init_def allocateBuffers_def ensureInitialized_def SceneDetector_new_def
  WasmBridge_new_def initialLoop_def finish_def example_decoder_def example_frame_def
  no_options_def validateFrame_def validateFrameDimensions_def onFrame_def
  detectSceneChange_def MEanalysis_js_def always_cut_def calculateFcode_def
  calculate_padded_size_def to_uint32_def u32_def Let_def




text \<open>
  Claim C6. \<open>validateFrame\<close> raises an error exactly for the invalid frames: empty data,
  fewer than \<open>width * height\<close> bytes, or a dimension that is not in 1..8192; and it returns
  normally for every frame with at least \<open>width * height\<close> bytes and both dimensions in
  1..8192. The driver does not catch the error: a run that reaches an invalid frame ends
  with that error.
\<close>

theorem validateFrame_rejects_exactly_invalid:
  "(validateFrame f \<noteq> Inr () \<longleftrightarrow>
      data f = [] \<or> int (length (data f)) < RawFrame.width f * RawFrame.height f
      \<or> RawFrame.width f \<le> 0 \<or> RawFrame.height f \<le> 0
      \<or> 8192 < RawFrame.width f \<or> 8192 < RawFrame.height f)
   \<and> (RawFrame.width f * RawFrame.height f \<le> int (length (data f))
        \<and> 1 \<le> RawFrame.width f \<and> RawFrame.width f \<le> 8192
        \<and> 1 \<le> RawFrame.height f \<and> RawFrame.height f \<le> 8192
        \<longrightarrow> validateFrame f = Inr ())
   \<and> (validateFrame f = Inl e
        \<and> detect loaded fmt bufs clock (dec\<lparr>frames := pre, failure := None\<rparr>) this = Inr (r, L)
        \<longrightarrow> detect loaded fmt bufs clock (dec\<lparr>frames := pre @ f # post\<rparr>) this = Inl e)"
proof (intro conjI impI)
  show "validateFrame f \<noteq> Inr () \<longleftrightarrow>
      data f = [] \<or> int (length (data f)) < RawFrame.width f * RawFrame.height f
      \<or> RawFrame.width f \<le> 0 \<or> RawFrame.height f \<le> 0
      \<or> 8192 < RawFrame.width f \<or> 8192 < RawFrame.height f"
    by (auto simp: validateFrame_def validateFrameDimensions_def Let_def)
next
  assume v: "RawFrame.width f * RawFrame.height f \<le> int (length (data f))
        \<and> 1 \<le> RawFrame.width f \<and> RawFrame.width f \<le> 8192
        \<and> 1 \<le> RawFrame.height f \<and> RawFrame.height f \<le> 8192"
  have pos: "0 < RawFrame.width f * RawFrame.height f"
    using v by (intro mult_pos_pos) linarith+
  have "data f \<noteq> []"
  proof
    assume "data f = []"
    then have "RawFrame.width f * RawFrame.height f \<le> 0" using v by simp
    with pos show False by linarith
  qed
  then show "validateFrame f = Inr ()"
    using v by (auto simp: validateFrame_def validateFrameDimensions_def Let_def)
next
  assume h: "validateFrame f = Inl e
        \<and> detect loaded fmt bufs clock (dec\<lparr>frames := pre, failure := None\<rparr>) this = Inr (r, L)"
  then have "onFrame fmt bufs L f = Inl e" by (simp add: onFrame_invalid)
  with h show "detect loaded fmt bufs clock (dec\<lparr>frames := pre @ f # post\<rparr>) this = Inl e"
    by (auto intro: detect_extend_fail)
qed

theorem validateFrame_rejects_exactly_invalid_witness:
  "validateFrame (example_frame 0 1 1) = Inl FrameDataEmpty
   \<and> validateFrame (example_frame 2 1 1) = Inr ()
   \<and> detect (Some always_cut) (\<lambda>t. []) example_buffers (0, 1000)
        ((example_decoder 1 1 [])\<lparr>frames := [example_frame 1 1 0] @ example_frame 0 1 1 # []\<rparr>)
        (SceneDetector_new no_options)
      = Inl FrameDataEmpty"
proof -
  have e: "validateFrame (example_frame 0 1 1) = Inl FrameDataEmpty"
    by (simp add: run_simps)
  have "\<exists>r L. detect (Some always_cut) (\<lambda>t. []) example_buffers (0, 1000)
               ((example_decoder 1 1 [])\<lparr>frames := [example_frame 1 1 0], failure := None\<rparr>)
               (SceneDetector_new no_options) = Inr (r, L)"
    by (simp add: run_simps)
  then obtain r L where
    d: "detect (Some always_cut) (\<lambda>t. []) example_buffers (0, 1000)
               ((example_decoder 1 1 [])\<lparr>frames := [example_frame 1 1 0], failure := None\<rparr>)
               (SceneDetector_new no_options) = Inr (r, L)"
    by blast
  note T = validateFrame_rejects_exactly_invalid
  have g: "validateFrame (example_frame 2 1 1) = Inr ()"
    using T [of "example_frame 2 1 1", THEN conjunct2, THEN conjunct1]
    by (simp add: example_frame_def)
  have "detect (Some always_cut) (\<lambda>t. []) example_buffers (0, 1000)
        ((example_decoder 1 1 [])\<lparr>frames := [example_frame 1 1 0] @ example_frame 0 1 1 # []\<rparr>)
        (SceneDetector_new no_options)
      = Inl FrameDataEmpty"
    using T [THEN conjunct2, THEN conjunct2, rule_format, OF conjI, OF e d] .
  then show ?thesis using e g by blast
qed





lemma fresh_prev: "prevFrame (state (detector (initialLoop (SceneDetector_new opts) md br))) = None"
  by (simp add: initialLoop_def SceneDetector_new_def)






lemma onFrame_options:
  "onFrame fmt bufs (with_options ro L) f = map_sum id (with_options ro) (onFrame fmt bufs L f)"
  by (simp add: onFrame_def with_options_def Let_def split: sum.splits option.splits prod.splits)

lemma deliver_options:
  "deliver (onFrame fmt bufs) (with_options ro L) fs
     = map_sum id (with_options ro) (deliver (onFrame fmt bufs) L fs)"
proof (induction fs arbitrary: L)
  case Nil
  show ?case by simp
next
  case (Cons f fs)
  show ?case
    by (cases "onFrame fmt bufs L f") (simp_all add: onFrame_options Cons.IH)
qed

lemma finish_options: "finish md clock (with_options ro L) = finish md clock L"
  by (simp add: finish_def with_options_def)

lemma detect_options:
  assumes "searchRange ro = searchRange (options this)"
  shows "map_sum id fst (detect loaded fmt bufs clock dec (this\<lparr>options := ro\<rparr>))
           = map_sum id fst (detect loaded fmt bufs clock dec this)"
proof -
  have i: "initialLoop (this\<lparr>options := ro\<rparr>) md br = with_options ro (initialLoop this md br)"
    for md br
    using assms by (simp add: initialLoop_def with_options_def)
  show ?thesis
    unfolding detect_unfold
    by (simp add: i deliver_options finish_options split: sum.splits option.splits)
qed

lemma SceneDetector_new_sensitivity:
  "SceneDetector_new (opts\<lparr>DetectionOptions.sensitivity := s\<rparr>)
     = (SceneDetector_new opts)
         \<lparr>options := (options (SceneDetector_new opts))
            \<lparr>sensitivity := (case s of None \<Rightarrow> Medium | Some l \<Rightarrow> l)\<rparr>\<rparr>"
  by (simp add: SceneDetector_new_def)

text \<open>
  Claim C1 (what the code does). The result of a detection is the same for every
  sensitivity setting: the option is stored by the constructor and never read, and
  \<open>calculateThresholds\<close> is never called.
\<close>

theorem detection_ignores_sensitivity:
  "detectSceneChanges loaded fmt bufs clock dec (opts\<lparr>DetectionOptions.sensitivity := s1\<rparr>)
     = detectSceneChanges loaded fmt bufs clock dec (opts\<lparr>DetectionOptions.sensitivity := s2\<rparr>)"
proof -
  have "detectSceneChanges loaded fmt bufs clock dec (opts\<lparr>DetectionOptions.sensitivity := s\<rparr>)
          = detectSceneChanges loaded fmt bufs clock dec opts" for s
    unfolding detectSceneChanges_def SceneDetector_new_sensitivity
    by (rule detect_options) simp
  then show ?thesis by simp
qed

lemma padded_size_small:
  assumes "w \<le> 8192" "h \<le> 8192"
  shows "(16 * ((w + 15) div 16) + 128) * (16 * ((h + 15) div 16) + 128) < (2::nat) ^ 32"
    and "calculate_padded_size w h
           = (16 * ((w + 15) div 16) + 128) * (16 * ((h + 15) div 16) + 128)"
proof -
  define EW where "EW = 16 * ((w + 15) div 16) + 128"
  define EH where "EH = 16 * ((h + 15) div 16) + 128"
  have "16 * ((w + 15) div 16) \<le> w + 15" "16 * ((h + 15) div 16) \<le> h + 15"
    by simp_all
  then have ew: "EW \<le> 8335" and eh: "EH \<le> 8335"
    using assms unfolding EW_def EH_def by linarith+
  have "EW * EH \<le> 8335 * 8335" using ew eh by (rule mult_le_mono)
  then have t: "EW * EH < 2 ^ 32" by simp
  then show "(16 * ((w + 15) div 16) + 128) * (16 * ((h + 15) div 16) + 128) < (2::nat) ^ 32"
    by (simp add: EW_def EH_def)
  have u: "u32 (w + 15) = w + 15" "u32 (h + 15) = h + 15"
    using assms by (simp_all add: u32_id)
  have v: "u32 EW = EW" "u32 EH = EH" "u32 (EW * EH) = EW * EH"
    using ew eh t by (simp_all add: u32_id)
  show "calculate_padded_size w h
           = (16 * ((w + 15) div 16) + 128) * (16 * ((h + 15) div 16) + 128)"
    using v by (simp add: calculate_padded_size_def Let_def u EW_def EH_def)
qed

lemma pad_frame_indep:
  assumes "1 \<le> w" "w \<le> 8192" "1 \<le> h" "h \<le> 8192" "w * h \<le> length bytes"
    and "i < calculate_padded_size w h"
  shows "pad_frame (heap_set bytes m1) d1 w h i = pad_frame (heap_set bytes m2) d2 w h i"
proof -
  define EW where "EW = 16 * ((w + 15) div 16) + 128"
  define EH where "EH = 16 * ((h + 15) div 16) + 128"
  note ps = padded_size_small [OF assms(2,4), folded EW_def EH_def]
  have i: "i < EH * EW" using assms(6) ps(2) by (simp add: mult.commute)
  have pos: "0 < EW" by (simp add: EW_def)
  have x: "i mod EW < EW" using pos by simp
  have y: "i div EW < EH" using i by (rule less_mult_imp_div_less)
  have e: "i div EW * EW + i mod EW = i" by simp
  have px: "pad_frame src dst w h i
              = src (min (i div EW - 64) (h - 1) * w + min (i mod EW - 64) (w - 1))"
    for src dst :: mem
    using pad_frame_pixel [OF assms(1,3) ps(1) [unfolded EW_def EH_def] x [unfolded EW_def]
        y [unfolded EW_def EH_def], of src dst]
    unfolding EW_def [symmetric] e .
  have "min (i div EW - 64) (h - 1) * w + min (i mod EW - 64) (w - 1) < length bytes"
    using clamped_index [OF assms(1,3), of "i div EW" "i mod EW"] assms(5) by linarith
  then show ?thesis
    unfolding px by (simp add: heap_set_def)
qed

lemma plane_indep:
  assumes "1 \<le> w" "w \<le> 8192" "1 \<le> h" "h \<le> 8192" "w * h \<le> length bytes"
  shows "plane (pad_frame (heap_set bytes m1) d1 w h) (calculate_padded_size w h)
           = plane (pad_frame (heap_set bytes m2) d2 w h) (calculate_padded_size w h)"
  unfolding plane_def
  by (rule map_cong [OF refl]) (simp add: pad_frame_indep [OF assms])

lemma validateFrame_Inr:
  assumes "validateFrame f = Inr ()"
  shows "1 \<le> to_uint32 (RawFrame.width f)" "to_uint32 (RawFrame.width f) \<le> 8192"
    "1 \<le> to_uint32 (RawFrame.height f)" "to_uint32 (RawFrame.height f) \<le> 8192"
    "to_uint32 (RawFrame.width f) * to_uint32 (RawFrame.height f) \<le> length (data f)"
proof -
  have v: "1 \<le> RawFrame.width f" "RawFrame.width f \<le> 8192"
    "1 \<le> RawFrame.height f" "RawFrame.height f \<le> 8192"
    "RawFrame.width f * RawFrame.height f \<le> int (length (data f))"
    using assms
    by (auto simp: validateFrame_def validateFrameDimensions_def Let_def split: if_splits)
  have w: "to_uint32 (RawFrame.width f) = nat (RawFrame.width f)"
    and h: "to_uint32 (RawFrame.height f) = nat (RawFrame.height f)"
    using v by (simp_all add: to_uint32_def)
  show "1 \<le> to_uint32 (RawFrame.width f)" "to_uint32 (RawFrame.width f) \<le> 8192"
    "1 \<le> to_uint32 (RawFrame.height f)" "to_uint32 (RawFrame.height f) \<le> 8192"
    using v by (simp_all add: w h)
  have "int (nat (RawFrame.width f) * nat (RawFrame.height f))
          = RawFrame.width f * RawFrame.height f"
    using v by simp
  then show "to_uint32 (RawFrame.width f) * to_uint32 (RawFrame.height f) \<le> length (data f)"
    unfolding w h using v(5) by linarith
qed

lemma detectSceneChange_indep:
  assumes "validateFrame p = Inr ()" "validateFrame c = Inr ()"
  shows "detectSceneChange s1 br p c ic fc = detectSceneChange s2 br p c ic fc"
proof (cases "RawFrame.width p = RawFrame.width c \<and> RawFrame.height p = RawFrame.height c")
  case False
  then show ?thesis by (auto simp: detectSceneChange_def split: sum.splits)
next
  case True
  note vp = validateFrame_Inr [OF assms(1)]
  note vc = validateFrame_Inr [OF assms(2)]
  have a: "plane (pad_frame (heap_set (data p) (prevRaw s1)) (prevPadded s1)
                    (to_uint32 (RawFrame.width p)) (to_uint32 (RawFrame.height p)))
             (calculate_padded_size (to_uint32 (RawFrame.width p)) (to_uint32 (RawFrame.height p)))
           = plane (pad_frame (heap_set (data p) (prevRaw s2)) (prevPadded s2)
                    (to_uint32 (RawFrame.width p)) (to_uint32 (RawFrame.height p)))
             (calculate_padded_size (to_uint32 (RawFrame.width p)) (to_uint32 (RawFrame.height p)))"
    by (rule plane_indep [OF vp])
  have b: "plane (pad_frame (heap_set (data c) (curRaw s1)) (curPadded s1)
                    (to_uint32 (RawFrame.width c)) (to_uint32 (RawFrame.height c)))
             (calculate_padded_size (to_uint32 (RawFrame.width c)) (to_uint32 (RawFrame.height c)))
           = plane (pad_frame (heap_set (data c) (curRaw s2)) (curPadded s2)
                    (to_uint32 (RawFrame.width c)) (to_uint32 (RawFrame.height c)))
             (calculate_padded_size (to_uint32 (RawFrame.width c)) (to_uint32 (RawFrame.height c)))"
    by (rule plane_indep [OF vc])
  show ?thesis
    using a b True by (simp add: detectSceneChange_def Let_def split: sum.splits)
qed

lemma onFrame_indep:
  assumes "prev_valid L"
  shows "onFrame fmt b1 L f = onFrame fmt b2 L f"
proof (cases "validateFrame f")
  case (Inl e)
  then show ?thesis by (simp add: onFrame_invalid)
next
  case (Inr u)
  then have v: "validateFrame f = Inr ()" by simp
  show ?thesis
  proof (cases "prevFrame (state (detector L))")
    case None
    then show ?thesis by (simp add: onFrame_first [OF v])
  next
    case (Some p)
    then have "validateFrame p = Inr ()" using assms by (simp add: prev_valid_def)
    then have "detectSceneChange (b1 (processedFrames L)) (wasmBridge (detector L)) p f
                 (intraCount (state (detector L))) (fcode (state (detector L)))
               = detectSceneChange (b2 (processedFrames L)) (wasmBridge (detector L)) p f
                 (intraCount (state (detector L))) (fcode (state (detector L)))"
      using v by (rule detectSceneChange_indep)
    then show ?thesis
      by (simp add: onFrame_next [OF v Some])
  qed
qed

lemma onFrame_prev_valid:
  assumes "onFrame fmt bufs L f = Inr L'"
  shows "prev_valid L'"
  using onFrame_Inr(1,2) [OF assms] by (simp add: prev_valid_def)

lemma deliver_indep:
  assumes "prev_valid L"
  shows "deliver (onFrame fmt b1) L fs = deliver (onFrame fmt b2) L fs"
  using assms
proof (induction fs arbitrary: L)
  case Nil
  show ?case by simp
next
  case (Cons f fs)
  have e: "onFrame fmt b1 L f = onFrame fmt b2 L f" using Cons.prems by (rule onFrame_indep)
  show ?case
  proof (cases "onFrame fmt b2 L f")
    case (Inl err)
    then show ?thesis using e by simp
  next
    case (Inr L1)
    then have "prev_valid L1" by (rule onFrame_prev_valid)
    then show ?thesis using e Inr Cons.IH by simp
  qed
qed

text \<open>
  Claim C8. Two runs on the same decoded frames with the same options, each on a new
  detector and with the analysis a function of its arguments, return the same scene list
  (or fail with the same error), whatever the clock reads and whatever the bridge's
  buffers held before each call.
\<close>

theorem detection_deterministic:
  "map_sum id DetectionResult.scenes (detectSceneChanges loaded fmt bufs1 clock1 dec opts)
     = map_sum id DetectionResult.scenes (detectSceneChanges loaded fmt bufs2 clock2 dec opts)"
proof -
  have p: "prev_valid (initialLoop (SceneDetector_new opts) md br)" for md br
    by (simp add: prev_valid_def fresh_prev)
  have f: "DetectionResult.scenes (finish md clock1 L) = DetectionResult.scenes (finish md clock2 L)"
    for md L
    by (simp add: finish_def)
  have d: "deliver (onFrame fmt bufs1) (initialLoop (SceneDetector_new opts) md br) fs
             = deliver (onFrame fmt bufs2) (initialLoop (SceneDetector_new opts) md br) fs"
    for md br fs
    by (rule deliver_indep [OF p])
  show ?thesis
    unfolding detectSceneChanges_def detect_unfold
    by (simp add: d f split: sum.splits option.splits)
qed

section \<open>Ring buffer\<close>

lemma length_buf_copy [simp]: "length (buf_copy s t ts ss se) = length t"
  by (auto simp: buf_copy_def Let_def min_def)

lemma nth_buf_copy:
  assumes "i < length t"
  shows "buf_copy s t ts ss se ! i =
           (if ts \<le> i \<and> i < ts + min (min se (length s) - ss) (length t - ts)
            then s ! (ss + (i - ts)) else t ! i)"
proof -
  define n where "n = min (min se (length s) - ss) (length t - ts)"
  have n1: "n \<le> length s - ss" and n2: "n \<le> length t - ts"
    by (auto simp: n_def)
  have e: "buf_copy s t ts ss se = take ts t @ take n (drop ss s) @ drop (ts + n) t"
    by (simp add: buf_copy_def n_def Let_def)
  have l2: "length (take n (drop ss s)) = n" using n1 by simp
  consider "i < ts" | "ts \<le> i" "i < ts + n" | "ts + n \<le> i" by linarith
  then have "buf_copy s t ts ss se ! i = (if ts \<le> i \<and> i < ts + n then s ! (ss + (i - ts)) else t ! i)"
  proof cases
    case 1
    then show ?thesis using assms by (simp add: e nth_append)
  next
    case 2
    then have "ts \<le> length t" using assms by simp
    then have l1: "min (length t) ts = ts" by simp
    have "i - ts < n" using 2 by linarith
    then show ?thesis using 2 n1 by (simp add: e nth_append l1)
  next
    case 3
    then have "ts \<le> length t" using assms by simp
    then have l1: "min (length t) ts = ts" by simp
    have "ts + n + (i - ts - n) = i" using 3 by simp
    moreover have "\<not> i - ts < n" "\<not> i < ts" using 3 by linarith+
    ultimately show ?thesis using 3 assms n1 by (simp add: e nth_append l1)
  qed
  then show ?thesis by (simp add: n_def)
qed

lemma mod_inj:
  fixes c :: nat
  assumes "a < c" "b < c" "(r + a) mod c = (r + b) mod c"
  shows "a = b"
proof -
  have one: "x = y" if "x < c" "y \<le> x" "(r + x) mod c = (r + y) mod c" for x y
  proof -
    have "c dvd (r + x) - (r + y)"
      using that by (subst mod_eq_dvd_iff_nat [symmetric]) simp_all
    then have "c dvd x - y" by simp
    moreover have "x - y < c" using that by simp
    ultimately have "x - y = 0" by (meson dvd_imp_le not_less zero_less_iff_neq_zero)
    then show ?thesis using that by simp
  qed
  show ?thesis
  proof (cases "b \<le> a")
    case True
    then show ?thesis using one [of a b] assms by simp
  next
    case False
    then show ?thesis using one [of b a] assms by simp
  qed
qed

lemma mod_wrap:
  fixes c :: nat
  assumes "c \<le> x" "x < 2 * c"
  shows "x mod c = x - c"
  using assms by (simp add: le_mod_geq)

lemma nth_buf_copy_exact:
  assumes "i < length t" "ts + n \<le> length t" "ss + n \<le> length s" "se = ss + n"
  shows "buf_copy s t ts ss se ! i =
           (if ts \<le> i \<and> i < ts + n then s ! (ss + (i - ts)) else t ! i)"
proof -
  have "min (min (ss + n) (length s) - ss) (length t - ts) = n"
    using assms(2,3) by linarith
  then show ?thesis
    using nth_buf_copy [OF assms(1), of s ts ss "ss + n"] assms(4) by simp
qed

lemma ring_store:
  fixes B chunk :: "u8 list"
  assumes "length B = c" "wp < c" "length chunk \<le> c"
  defines "B' \<equiv> (if length chunk \<le> c - wp then buf_copy chunk B wp 0 (length chunk)
                  else buf_copy chunk (buf_copy chunk B wp 0 (c - wp)) 0 (c - wp) (length chunk))"
  shows "length B' = c"
    and "\<And>k. k < length chunk \<Longrightarrow> B' ! ((wp + k) mod c) = chunk ! k"
    and "\<And>p. p < c \<Longrightarrow> (\<And>k. k < length chunk \<Longrightarrow> p \<noteq> (wp + k) mod c) \<Longrightarrow> B' ! p = B ! p"
proof -
  define n where "n = length chunk"
  define e where "e = c - wp"
  define B1 where "B1 = buf_copy chunk B wp 0 e"
  have we: "wp + e = c" using assms(2) by (simp add: e_def)
  have nc: "n \<le> c" using assms(3) by (simp add: n_def)
  have B': "B' = (if n \<le> e then buf_copy chunk B wp 0 n else buf_copy chunk B1 0 e n)"
    by (simp add: B'_def n_def e_def B1_def)
  have l1: "length B1 = c" by (simp add: B1_def assms(1))
  have at: "B' ! p = (if n \<le> e then (if wp \<le> p \<and> p < wp + n then chunk ! (p - wp) else B ! p)
                      else if p < n - e then chunk ! (e + p)
                      else if wp \<le> p then chunk ! (p - wp) else B ! p)"
    if p: "p < c" for p
  proof (cases "n \<le> e")
    case True
    have "buf_copy chunk B wp 0 n ! p
                 = (if wp \<le> p \<and> p < wp + n then chunk ! (0 + (p - wp)) else B ! p)"
    proof (rule nth_buf_copy_exact)
      show "p < length B" using p assms(1) by simp
      show "wp + n \<le> length B" using True we assms(1) by linarith
      show "0 + n \<le> length chunk" by (simp add: n_def)
      show "n = 0 + n" by simp
    qed
    then show ?thesis using True by (simp add: B')
  next
    case False
    have b1: "B1 ! p = (if wp \<le> p \<and> p < wp + e then chunk ! (0 + (p - wp)) else B ! p)"
      unfolding B1_def
    proof (rule nth_buf_copy_exact)
      show "p < length B" using p assms(1) by simp
      show "wp + e \<le> length B" using we assms(1) by simp
      show "0 + e \<le> length chunk" using False by (simp add: n_def)
      show "e = 0 + e" by simp
    qed
    have "buf_copy chunk B1 0 e n ! p
            = (if 0 \<le> p \<and> p < 0 + (n - e) then chunk ! (e + (p - 0)) else B1 ! p)"
    proof (rule nth_buf_copy_exact)
      show "p < length B1" using p l1 by simp
      show "0 + (n - e) \<le> length B1" using nc l1 by simp
      show "e + (n - e) \<le> length chunk" using False by (simp add: n_def)
      show "n = e + (n - e)" using False by simp
    qed
    then show ?thesis
      using False b1 we p by (simp add: B')
  qed
  show "length B' = c" using assms(1) by (simp add: B'_def)
  show "B' ! ((wp + k) mod c) = chunk ! k" if k: "k < length chunk" for k
  proof (cases "wp + k < c")
    case True
    then have m: "(wp + k) mod c = wp + k" by simp
    have kn: "k < n" using k by (simp add: n_def)
    have "\<not> wp + k < n - e" using nc we by linarith
    then show ?thesis
      unfolding m at [OF True] using kn True we by simp
  next
    case False
    then have m: "(wp + k) mod c = wp + k - c"
      using assms(2,3) k by (intro mod_wrap) simp_all
    have kn: "k < n" using k by (simp add: n_def)
    have lt: "wp + k - c < c" using assms(2) nc kn by linarith
    have ne: "\<not> n \<le> e" using False kn we by linarith
    have "wp + k - c < n - e" using False kn we by linarith
    moreover have "e + (wp + k - c) = k" using False we by linarith
    ultimately show ?thesis
      unfolding m at [OF lt] using ne by simp
  qed
  show "B' ! p = B ! p"
    if p: "p < c" and other: "\<And>k. k < length chunk \<Longrightarrow> p \<noteq> (wp + k) mod c" for p
  proof -
    have a: "\<not> (wp \<le> p \<and> p < wp + n)"
    proof
      assume h: "wp \<le> p \<and> p < wp + n"
      then have "p = (wp + (p - wp)) mod c" using p by simp
      moreover have "p - wp < length chunk" using h unfolding n_def by linarith
      ultimately show False using other [of "p - wp"] by simp
    qed
    have b: "\<not> (\<not> n \<le> e \<and> p < n - e)"
    proof
      assume h: "\<not> n \<le> e \<and> p < n - e"
      have "wp + (p + e) = p + c" using we by simp
      then have "(wp + (p + e)) mod c = (p + c) mod c" by (rule arg_cong)
      then have "(wp + (p + e)) mod c = p" using p by simp
      moreover have "p + e < length chunk" using h unfolding n_def by linarith
      ultimately show False using other [of "p + e"] by simp
    qed
    have c: "\<not> wp \<le> p" if "\<not> n \<le> e"
    proof
      assume "wp \<le> p"
      moreover from this have "p < wp + n" using that p we by linarith
      ultimately show False using a by simp
    qed
    show ?thesis
      unfolding at [OF p] using a b c by auto
  qed
qed

lemma ring_load:
  fixes B R0 :: "u8 list"
  assumes "length B = c" "rp < c" "length R0 \<le> c"
  defines "out \<equiv> (if length R0 \<le> c - rp then buf_copy B R0 0 rp (rp + length R0)
                   else buf_copy B (buf_copy B R0 0 rp c) (c - rp) 0 (length R0 - (c - rp)))"
  shows "length out = length R0"
    and "\<And>k. k < length R0 \<Longrightarrow> out ! k = B ! ((rp + k) mod c)"
proof -
  define n where "n = length R0"
  define e where "e = c - rp"
  define R1 where "R1 = buf_copy B R0 0 rp c"
  have re: "rp + e = c" using assms(2) by (simp add: e_def)
  have nc: "n \<le> c" using assms(3) by (simp add: n_def)
  have out: "out = (if n \<le> e then buf_copy B R0 0 rp (rp + n) else buf_copy B R1 e 0 (n - e))"
    by (simp add: out_def n_def e_def R1_def)
  have l1: "length R1 = n" by (simp add: R1_def n_def)
  show "length out = length R0" by (simp add: out_def)
  show "out ! k = B ! ((rp + k) mod c)" if k: "k < length R0" for k
  proof (cases "n \<le> e")
    case True
    have kn: "k < n" using k by (simp add: n_def)
    have "rp + k < c" using True kn re by linarith
    then have m: "(rp + k) mod c = rp + k" by simp
    have "buf_copy B R0 0 rp (rp + n) ! k
                 = (if 0 \<le> k \<and> k < 0 + n then B ! (rp + (k - 0)) else R0 ! k)"
    proof (rule nth_buf_copy_exact)
      show "k < length R0" by (rule k)
      show "0 + n \<le> length R0" by (simp add: n_def)
      show "rp + n \<le> length B" using True re assms(1) by linarith
      show "rp + n = rp + n" ..
    qed
    then show ?thesis
      unfolding m using True kn by (simp add: out)
  next
    case False
    have kn: "k < n" using k by (simp add: n_def)
    have r1: "R1 ! k = (if 0 \<le> k \<and> k < 0 + e then B ! (rp + (k - 0)) else R0 ! k)"
      unfolding R1_def
    proof (rule nth_buf_copy_exact)
      show "k < length R0" by (rule k)
      show "0 + e \<le> length R0" using False by (simp add: n_def)
      show "rp + e \<le> length B" using re assms(1) by simp
      show "c = rp + e" using re by simp
    qed
    have "buf_copy B R1 e 0 (n - e) ! k
            = (if e \<le> k \<and> k < e + (n - e) then B ! (0 + (k - e)) else R1 ! k)"
    proof (rule nth_buf_copy_exact)
      show "k < length R1" using kn l1 by simp
      show "e + (n - e) \<le> length R1" using False l1 by simp
      show "0 + (n - e) \<le> length B" using nc assms(1) by simp
      show "n - e = 0 + (n - e)" by simp
    qed
    then have o: "out ! k = (if e \<le> k then B ! (k - e) else R1 ! k)"
      using False kn by (simp add: out)
    show ?thesis
    proof (cases "e \<le> k")
      case True
      then have "(rp + k) mod c = rp + k - c"
        using nc kn re assms(2) by (intro mod_wrap) linarith+
      moreover have "rp + k - c = k - e" using True re by linarith
      ultimately show ?thesis using o True by simp
    next
      case nw: False
      then have "rp + k < c" using re by linarith
      then have "(rp + k) mod c = rp + k" by simp
      then show ?thesis using o nw r1 by simp
    qed
  qed
qed


lemma length_allocUnsafe [simp]: "length (allocUnsafe sz uninit) = sz"
  unfolding allocUnsafe_def by simp

lemma ring_inv_new: "ring_inv (RingBuffer_new sz uninit)"
  by (simp add: ring_inv_def RingBuffer_new_def)

lemma write_result:
  assumes inv: "ring_inv rb" and pos: "0 < capacity rb"
    and fit: "length chunk \<le> capacity rb - availableBytes rb"
  shows "RingBuffer_write rb chunk =
           (Inr (),
            rb\<lparr>buffer := (if length chunk \<le> capacity rb - writePos rb
                            then buf_copy chunk (buffer rb) (writePos rb) 0 (length chunk)
                            else buf_copy chunk
                                   (buf_copy chunk (buffer rb) (writePos rb) 0
                                      (capacity rb - writePos rb))
                                   0 (capacity rb - writePos rb) (length chunk)),
               writePos := (writePos rb + length chunk) mod capacity rb,
               availableBytes := availableBytes rb + length chunk\<rparr>)"
proof -
  have wp: "writePos rb < capacity rb" using inv pos by (simp add: ring_inv_def)
  have a: "availableBytes rb \<le> capacity rb" using inv by (simp add: ring_inv_def)
  have no: "\<not> int (length chunk) > int (capacity rb) - int (availableBytes rb)"
    using fit a by linarith
  show ?thesis
  proof (cases "length chunk \<le> capacity rb - writePos rb")
    case True
    show ?thesis
    proof (cases "writePos rb + length chunk = capacity rb")
      case e: True
      then show ?thesis
        using no True by (simp add: RingBuffer_write_def Let_def)
    next
      case e: False
      then have "writePos rb + length chunk < capacity rb" using True wp by linarith
      then show ?thesis
        using no True by (simp add: RingBuffer_write_def Let_def)
    qed
  next
    case False
    have n: "length chunk \<le> capacity rb" using fit by simp
    have m: "(writePos rb + length chunk) mod capacity rb
               = writePos rb + length chunk - capacity rb"
      using False wp n by (intro mod_wrap) linarith+
    have lt: "length chunk - (capacity rb - writePos rb) < capacity rb"
      using False wp n by linarith
    have eq: "length chunk - (capacity rb - writePos rb)
                = writePos rb + length chunk - capacity rb"
      using False wp by linarith
    show ?thesis
      using no False lt by (simp add: RingBuffer_write_def Let_def m eq)
  qed
qed

lemma contents_nth:
  "i < availableBytes rb \<Longrightarrow> contents rb ! i = buffer rb ! ((readPos rb + i) mod capacity rb)"
  by (simp add: contents_def)

lemma length_contents [simp]: "length (contents rb) = availableBytes rb"
  by (simp add: contents_def)

lemma write_ok:
  assumes inv: "ring_inv rb" and fit: "length chunk \<le> capacity rb - availableBytes rb"
  shows "\<exists>rb'. RingBuffer_write rb chunk = (Inr (), rb') \<and> ring_inv rb'
           \<and> contents rb' = contents rb @ chunk \<and> capacity rb' = capacity rb
           \<and> availableBytes rb' = availableBytes rb + length chunk"
proof (cases "capacity rb = 0")
  case True
  then have "chunk = []" using fit by simp
  then show ?thesis
    using inv True
    by (simp add: RingBuffer_write_def Let_def ring_inv_def contents_def buf_copy_def)
next
  case False
  define c where "c = capacity rb"
  define a where "a = availableBytes rb"
  define rp where "rp = readPos rb"
  define wp where "wp = writePos rb"
  define n where "n = length chunk"
  define B where "B = buffer rb"
  define B' where "B' = (if length chunk \<le> c - wp then buf_copy chunk B wp 0 (length chunk)
                  else buf_copy chunk (buf_copy chunk B wp 0 (c - wp)) 0 (c - wp) (length chunk))"
  define rb' where "rb' = rb\<lparr>buffer := B', writePos := (wp + n) mod c, availableBytes := a + n\<rparr>"
  have pos: "0 < c" using False by (simp add: c_def)
  have lb: "length B = c" and ac: "a \<le> c" and rpc: "rp < c" and wpe: "wp = (rp + a) mod c"
    using inv False by (simp_all add: ring_inv_def c_def a_def rp_def wp_def B_def)
  have wpc: "wp < c" using wpe pos by simp
  have nc: "length chunk \<le> c" and anc: "a + n \<le> c"
    using fit ac by (simp_all add: c_def a_def n_def)
  note st = ring_store [OF lb wpc nc, folded B'_def]
  have res: "RingBuffer_write rb chunk = (Inr (), rb')"
    using write_result [OF inv _ fit] False
    by (simp add: rb'_def B'_def c_def wp_def n_def a_def B_def)
  have wk: "(wp + k) mod c = (rp + (a + k)) mod c" for k
    unfolding wpe by (simp add: mod_add_left_eq add.assoc)
  have inv': "ring_inv rb'"
    using st(1) rpc anc pos wk [of n]
    by (simp add: ring_inv_def rb'_def c_def [symmetric] rp_def [symmetric])
  have "contents rb' = contents rb @ chunk"
  proof (rule nth_equalityI)
    show "length (contents rb') = length (contents rb @ chunk)"
      by (simp add: rb'_def a_def n_def)
  next
    fix i assume "i < length (contents rb')"
    then have i: "i < a + n" by (simp add: rb'_def)
    have l: "contents rb' ! i = B' ! ((rp + i) mod c)"
      using i by (simp add: contents_def rb'_def rp_def c_def)
    show "contents rb' ! i = (contents rb @ chunk) ! i"
    proof (cases "i < a")
      case True
      have "B' ! ((rp + i) mod c) = B ! ((rp + i) mod c)"
      proof (rule st(3))
        show "(rp + i) mod c < c" using pos by simp
      next
        fix k assume k: "k < length chunk"
        show "(rp + i) mod c \<noteq> (wp + k) mod c"
        proof
          assume "(rp + i) mod c = (wp + k) mod c"
          then have "(rp + i) mod c = (rp + (a + k)) mod c" by (simp add: wk)
          moreover have "i < c" "a + k < c" using True ac k anc by (simp_all add: n_def)
          ultimately have "i = a + k" by (rule mod_inj [rotated 2])
          then show False using True by simp
        qed
      qed
      then show ?thesis
        using True l by (simp add: nth_append contents_def a_def rp_def c_def B_def)
    next
      case False
      then have k: "i - a < length chunk" using i by (simp add: n_def)
      have "a + (i - a) = i" using False by simp
      then have "(rp + i) mod c = (wp + (i - a)) mod c"
        unfolding wk by simp
      then have "B' ! ((rp + i) mod c) = chunk ! (i - a)"
        using st(2) [OF k] by simp
      then show ?thesis
        using False l by (simp add: nth_append a_def)
    qed
  qed
  then show ?thesis
    using res inv' by (auto simp: rb'_def c_def a_def n_def)
qed


lemma read_result:
  assumes inv: "ring_inv rb" and pos: "0 < capacity rb" and fit: "sz \<le> availableBytes rb"
  shows "RingBuffer_read rb sz uninit =
           (Inr (if length (allocUnsafe sz uninit) \<le> capacity rb - readPos rb
                 then buf_copy (buffer rb) (allocUnsafe sz uninit) 0 (readPos rb)
                        (readPos rb + length (allocUnsafe sz uninit))
                 else buf_copy (buffer rb)
                        (buf_copy (buffer rb) (allocUnsafe sz uninit) 0 (readPos rb)
                           (capacity rb))
                        (capacity rb - readPos rb) 0
                        (length (allocUnsafe sz uninit) - (capacity rb - readPos rb))),
            rb\<lparr>readPos := (readPos rb + sz) mod capacity rb,
               availableBytes := availableBytes rb - sz\<rparr>)"
proof -
  have rp: "readPos rb < capacity rb" using inv pos by (simp add: ring_inv_def)
  have a: "availableBytes rb \<le> capacity rb" using inv by (simp add: ring_inv_def)
  have no: "\<not> sz > availableBytes rb" using fit by simp
  show ?thesis
  proof (cases "sz \<le> capacity rb - readPos rb")
    case True
    show ?thesis
    proof (cases "readPos rb + sz = capacity rb")
      case e: True
      then show ?thesis
        using no True by (simp add: RingBuffer_read_def Let_def)
    next
      case e: False
      then have "readPos rb + sz < capacity rb" using True rp by linarith
      then show ?thesis
        using no True by (simp add: RingBuffer_read_def Let_def)
    qed
  next
    case False
    have n: "sz \<le> capacity rb" using fit a by simp
    have m: "(readPos rb + sz) mod capacity rb = readPos rb + sz - capacity rb"
      using False rp n by (intro mod_wrap) linarith+
    have lt: "sz - (capacity rb - readPos rb) < capacity rb"
      using False rp n by linarith
    have eq: "sz - (capacity rb - readPos rb) = readPos rb + sz - capacity rb"
      using False rp by linarith
    show ?thesis
      using no False lt by (simp add: RingBuffer_read_def Let_def m eq)
  qed
qed

lemma read_ok:
  assumes inv: "ring_inv rb" and fit: "sz \<le> availableBytes rb"
  shows "\<exists>out rb'. RingBuffer_read rb sz uninit = (Inr out, rb') \<and> ring_inv rb'
           \<and> out = take sz (contents rb) \<and> contents rb' = drop sz (contents rb)
           \<and> capacity rb' = capacity rb \<and> availableBytes rb' = availableBytes rb - sz"
proof (cases "capacity rb = 0")
  case True
  then have "sz = 0" "availableBytes rb = 0" using fit inv by (simp_all add: ring_inv_def)
  then show ?thesis
    using inv True
    by (simp add: RingBuffer_read_def Let_def ring_inv_def contents_def buf_copy_def
        allocUnsafe_def)
next
  case False
  define c where "c = capacity rb"
  define a where "a = availableBytes rb"
  define rp where "rp = readPos rb"
  define B where "B = buffer rb"
  define R0 where "R0 = allocUnsafe sz uninit"
  define out where "out = (if length R0 \<le> c - rp then buf_copy B R0 0 rp (rp + length R0)
                   else buf_copy B (buf_copy B R0 0 rp c) (c - rp) 0 (length R0 - (c - rp)))"
  define rb' where "rb' = rb\<lparr>readPos := (rp + sz) mod c, availableBytes := a - sz\<rparr>"
  have pos: "0 < c" using False by (simp add: c_def)
  have lb: "length B = c" and ac: "a \<le> c" and rpc: "rp < c"
    and wpe: "writePos rb = (rp + a) mod c"
    using inv False by (simp_all add: ring_inv_def c_def a_def rp_def B_def)
  have lr: "length R0 = sz" by (simp add: R0_def)
  have sa: "sz \<le> a" using fit by (simp add: a_def)
  have nc: "length R0 \<le> c" using lr sa ac by simp
  note ld = ring_load [OF lb rpc nc, folded out_def]
  have res: "RingBuffer_read rb sz uninit = (Inr out, rb')"
    using read_result [OF inv _ fit, of uninit] False
    by (simp add: rb'_def out_def c_def rp_def a_def B_def R0_def)
  have "((rp + sz) mod c + (a - sz)) mod c = (rp + sz + (a - sz)) mod c"
    by (rule mod_add_left_eq)
  also have "rp + sz + (a - sz) = rp + a" using sa by simp
  finally have "(rp + a) mod c = ((rp + sz) mod c + (a - sz)) mod c" by simp
  then have inv': "ring_inv rb'"
    using lb ac pos wpe
    by (simp add: ring_inv_def rb'_def c_def [symmetric] B_def [symmetric])
  have o: "out = take sz (contents rb)"
  proof (rule nth_equalityI)
    show "length out = length (take sz (contents rb))"
      using ld(1) lr sa by (simp add: a_def)
  next
    fix k assume "k < length out"
    then have k: "k < sz" using ld(1) lr by simp
    then have "out ! k = B ! ((rp + k) mod c)" using ld(2) [of k] lr by simp
    then show "out ! k = take sz (contents rb) ! k"
      using k sa by (simp add: contents_def a_def rp_def c_def B_def)
  qed
  have d: "contents rb' = drop sz (contents rb)"
  proof (rule nth_equalityI)
    show "length (contents rb') = length (drop sz (contents rb))"
      by (simp add: rb'_def a_def)
  next
    fix i assume "i < length (contents rb')"
    then have i: "i < a - sz" by (simp add: rb'_def)
    have "((rp + sz) mod c + i) mod c = (rp + (sz + i)) mod c"
      by (simp add: mod_add_left_eq add.assoc)
    moreover have "sz + i < availableBytes rb" using i unfolding a_def by linarith
    moreover have "i < availableBytes rb'" using i by (simp add: rb'_def)
    ultimately show "contents rb' ! i = drop sz (contents rb) ! i"
      using sa by (simp add: contents_nth) (simp add: rb'_def a_def rp_def c_def)
  qed
  show ?thesis
    using res inv' o d by (auto simp: rb'_def c_def a_def)
qed

lemma run_ops_fifo:
  assumes "ring_inv rb" "fits (capacity rb) (availableBytes rb) ops"
  shows "\<exists>outs rb'. run_ops rb ops = Inr (outs, rb') \<and> ring_inv rb'
           \<and> concat outs @ contents rb' = contents rb @ written ops
           \<and> map length outs = requested ops"
  using assms
proof (induction ops arbitrary: rb)
  case Nil
  then show ?case by simp
next
  case (Cons op ops)
  show ?case
  proof (cases op)
    case (Write chunk)
    have fit: "length chunk \<le> capacity rb - availableBytes rb"
      and rest: "fits (capacity rb) (availableBytes rb + length chunk) ops"
      using Cons.prems(2) Write by simp_all
    obtain rb1 where w: "RingBuffer_write rb chunk = (Inr (), rb1)" "ring_inv rb1"
      "contents rb1 = contents rb @ chunk" "capacity rb1 = capacity rb"
      "availableBytes rb1 = availableBytes rb + length chunk"
      using write_ok [OF Cons.prems(1) fit] by blast
    have "fits (capacity rb1) (availableBytes rb1) ops" using rest w(4,5) by simp
    from Cons.IH [OF w(2) this]
    obtain outs rb' where r: "run_ops rb1 ops = Inr (outs, rb')" "ring_inv rb'"
      "concat outs @ contents rb' = contents rb1 @ written ops"
      "map length outs = requested ops"
      by blast
    show ?thesis
      using Write w(1,3) r by simp
  next
    case (Read sz uninit)
    have fit: "sz \<le> availableBytes rb"
      and rest: "fits (capacity rb) (availableBytes rb - sz) ops"
      using Cons.prems(2) Read by simp_all
    obtain out rb1 where w: "RingBuffer_read rb sz uninit = (Inr out, rb1)" "ring_inv rb1"
      "out = take sz (contents rb)" "contents rb1 = drop sz (contents rb)"
      "capacity rb1 = capacity rb" "availableBytes rb1 = availableBytes rb - sz"
      using read_ok [OF Cons.prems(1) fit] by blast
    have "fits (capacity rb1) (availableBytes rb1) ops" using rest w(5,6) by simp
    from Cons.IH [OF w(2) this]
    obtain outs rb' where r: "run_ops rb1 ops = Inr (outs, rb')" "ring_inv rb'"
      "concat outs @ contents rb' = contents rb1 @ written ops"
      "map length outs = requested ops"
      by blast
    have "out @ contents rb1 = contents rb" using w(3,4) by simp
    then have "out @ concat outs @ contents rb' = contents rb @ written ops"
      using r(3) by (metis append.assoc)
    moreover have "length out = sz" using w(3) fit by simp
    ultimately show ?thesis
      using Read w(1) r by simp
  qed
qed

text \<open>
  Claim C9. The ring buffer is first-in first-out: when every written chunk fits in the
  free space and every read asks for no more than is available, all operations succeed,
  every read returns as many bytes as requested, and the bytes read, in order, followed
  by the bytes still stored, are the bytes written, in order. A write that does not fit
  and a read of more than is available throw and leave the buffer as it was.
\<close>

theorem ring_buffer_fifo:
  "(fits sz 0 ops \<longrightarrow>
      (\<exists>outs rb. run_ops (RingBuffer_new sz uninit) ops = Inr (outs, rb)
         \<and> map length outs = requested ops
         \<and> concat outs @ contents rb = written ops
         \<and> prefix (concat outs) (written ops)))
   \<and> (int (length chunk) > int (capacity rb0) - int (availableBytes rb0) \<longrightarrow>
        RingBuffer_write rb0 chunk = (Inl RingBufferOverflow, rb0))
   \<and> (n > availableBytes rb0 \<longrightarrow>
        RingBuffer_read rb0 n garbage = (Inl RingBufferUnderflow, rb0))"
proof (intro conjI impI)
  assume f: "fits sz 0 ops"
  have c: "capacity (RingBuffer_new sz uninit) = sz"
    "availableBytes (RingBuffer_new sz uninit) = 0"
    "contents (RingBuffer_new sz uninit) = []"
    by (simp_all add: RingBuffer_new_def contents_def)
  from run_ops_fifo [OF ring_inv_new, of sz uninit ops] f c
  obtain outs rb where r: "run_ops (RingBuffer_new sz uninit) ops = Inr (outs, rb)"
    "concat outs @ contents rb = written ops" "map length outs = requested ops"
    by auto
  have "prefix (concat outs) (written ops)"
    using r(2) by (metis prefixI)
  then show "\<exists>outs rb. run_ops (RingBuffer_new sz uninit) ops = Inr (outs, rb)
         \<and> map length outs = requested ops
         \<and> concat outs @ contents rb = written ops
         \<and> prefix (concat outs) (written ops)"
    using r by blast
next
  assume "int (length chunk) > int (capacity rb0) - int (availableBytes rb0)"
  then show "RingBuffer_write rb0 chunk = (Inl RingBufferOverflow, rb0)"
    by (simp add: RingBuffer_write_def)
next
  assume "n > availableBytes rb0"
  then show "RingBuffer_read rb0 n garbage = (Inl RingBufferUnderflow, rb0)"
    by (simp add: RingBuffer_read_def)
qed

theorem ring_buffer_fifo_witness:
  "fits 4 0 example_ops
   \<and> (\<exists>outs rb. run_ops (RingBuffer_new 4 [9, 9]) example_ops = Inr (outs, rb)
         \<and> map length outs = [2, 4]
         \<and> concat outs @ contents rb = [1, 2, 3, 4, 5, 6]
         \<and> prefix (concat outs) [1, 2, 3, 4, 5, 6])
   \<and> RingBuffer_write (RingBuffer_new 1 []) [1, 2]
        = (Inl RingBufferOverflow, RingBuffer_new 1 [])
   \<and> RingBuffer_read (RingBuffer_new 1 []) 1 []
        = (Inl RingBufferUnderflow, RingBuffer_new 1 [])"
proof -
  note T = ring_buffer_fifo [where sz = 4 and ops = example_ops and uninit = "[9, 9]"
      and chunk = "[1, 2]" and ?rb0.0 = "RingBuffer_new 1 []" and n = 1 and garbage = "[]"]
  have f: "fits 4 0 example_ops" by (simp add: example_ops_def)
  have w: "written example_ops = [1, 2, 3, 4, 5, 6]" "requested example_ops = [2, 4]"
    by (simp_all add: example_ops_def)
  have o: "int (length [1, 2 :: u8]) > int (capacity (RingBuffer_new 1 []))
             - int (availableBytes (RingBuffer_new 1 []))"
    by (simp add: RingBuffer_new_def)
  have u: "1 > availableBytes (RingBuffer_new 1 [])"
    by (simp add: RingBuffer_new_def)
  have a: "\<exists>outs rb. run_ops (RingBuffer_new 4 [9, 9]) example_ops = Inr (outs, rb)
         \<and> map length outs = [2, 4]
         \<and> concat outs @ contents rb = [1, 2, 3, 4, 5, 6]
         \<and> prefix (concat outs) [1, 2, 3, 4, 5, 6]"
    using T [THEN conjunct1, rule_format, OF f] unfolding w .
  have b: "RingBuffer_write (RingBuffer_new 1 []) [1, 2]
        = (Inl RingBufferOverflow, RingBuffer_new 1 [])"
    by (rule T [THEN conjunct2, THEN conjunct1, rule_format, OF o])
  have c: "RingBuffer_read (RingBuffer_new 1 []) 1 []
        = (Inl RingBufferUnderflow, RingBuffer_new 1 [])"
    by (rule T [THEN conjunct2, THEN conjunct2, rule_format, OF u])
  show ?thesis using f a b c by blast
qed

section \<open>Buffer pool\<close>












end
